theory Spec2Isabelle
  imports Complex_Main "HOL-Library.Multiset"
begin

chapter \<open>The model\<close>

section \<open>Errors\<close>

text \<open>
  Every exception the sources throw is a value.  \<open>LogicError\<close>, \<open>InvalidArgument\<close> and
  \<open>OutOfRange\<close> carry the message of the \<^verbatim>\<open>std::logic_error\<close>, \<^verbatim>\<open>std::invalid_argument\<close>
  and \<^verbatim>\<open>std::out_of_range\<close> they stand for; \<open>OverflowError\<close>, \<open>UnderflowError\<close> and
  \<open>RuntimeError\<close> are \<^verbatim>\<open>std::overflow_error\<close>, \<^verbatim>\<open>std::underflow_error\<close> and
  \<^verbatim>\<open>std::runtime_error\<close>; \<open>AssertionFailed\<close> is a failed \<^verbatim>\<open>assert\<close>, which aborts.
\<close>

datatype error =
    LogicError string
  | InvalidArgument string
  | OutOfRange string
  | OverflowError
  | UnderflowError
  | RuntimeError
  | AssertionFailed

section \<open>NewickBrokerElement (lib/genesis/tree/formats/newick/element.hpp)\<close>

text \<open>
  The struct with its public members and the private, mutable member \<^verbatim>\<open>rank_\<close>, written
  \<open>rank_m\<close> here (as \<^verbatim>\<open>values\<close> is written \<open>values_m\<close>), since a name cannot end in an
  underscore.  Both \<open>depth\<close> and \<open>rank_m\<close> are C++ \<^verbatim>\<open>int\<close>; nothing here does arithmetic
  on them.
\<close>

record NewickBrokerElement =
  name :: string
  values_m :: "string list"
  tags :: "string list"
  comments :: "string list"
  depth :: int
  rank_m :: int

text \<open>The default constructor: empty strings and vectors, \<open>depth\<close> and \<open>rank_m\<close> set to \<open>-1\<close>.\<close>

definition NewickBrokerElement_ctor :: NewickBrokerElement where
  "NewickBrokerElement_ctor =
     \<lparr> name = [], values_m = [], tags = [], comments = [], depth = - 1, rank_m = - 1 \<rparr>"

definition rank :: "NewickBrokerElement \<Rightarrow> error + int" where
  "rank el =
     (if rank_m el < 0
      then Inl (LogicError ''NewickBroker::assign_ranks() was not called before.'')
      else Inr (rank_m el))"

definition is_root :: "NewickBrokerElement \<Rightarrow> bool" where
  "is_root el = (depth el = 0)"

definition is_leaf :: "NewickBrokerElement \<Rightarrow> error + bool" where
  "is_leaf el =
     (if rank_m el < 0
      then Inl (LogicError ''NewickBroker::is_leaf() was not called before.'')
      else Inr (rank_m el = 0))"

definition is_inner :: "NewickBrokerElement \<Rightarrow> error + bool" where
  "is_inner el =
     (if rank_m el < 0
      then Inl (LogicError ''NewickBroker::is_leaf() was not called before.'')
      else Inr (rank_m el \<noteq> 0))"

section \<open>Characters and decimal numerals of the C++ library\<close>

text \<open>
  \<^verbatim>\<open>isdigit\<close> and \<^verbatim>\<open>isspace\<close> in the C locale, on the character's code.
\<close>

definition isdigit :: "char \<Rightarrow> bool" where
  "isdigit c = (48 \<le> (of_char c :: nat) \<and> (of_char c :: nat) \<le> 57)"

definition isspace :: "char \<Rightarrow> bool" where
  "isspace c = ((of_char c :: nat) = 32 \<or> (9 \<le> (of_char c :: nat) \<and> (of_char c :: nat) \<le> 13))"

text \<open>\<^verbatim>\<open>c - '0'\<close> and its inverse on the ten digits.\<close>

definition digit_val :: "char \<Rightarrow> nat" where
  "digit_val c = (of_char c :: nat) - 48"

definition digit_char :: "nat \<Rightarrow> char" where
  "digit_char d = char_of (48 + d)"

text \<open>The number a run of decimal digits denotes, most significant digit first.\<close>

definition digits_value :: "string \<Rightarrow> nat" where
  "digits_value ds = foldl (\<lambda>x c. 10 * x + digit_val c) 0 ds"

text \<open>The range of a 32-bit \<^verbatim>\<open>int\<close> and of a 32-bit \<^verbatim>\<open>unsigned int\<close>.\<close>

definition INT_MAX :: int where "INT_MAX = 2147483647"
definition INT_MIN :: int where "INT_MIN = - 2147483648"
definition UINT_MAX :: int where "UINT_MAX = 4294967295"

text \<open>
  \<^verbatim>\<open>std::stoi(str)\<close> (base 10, no position argument), as the C++ standard defines it through
  \<^verbatim>\<open>strtol\<close>: leading white space is skipped, one sign is accepted, the longest run of digits
  is converted and whatever follows is ignored; no digit at all is \<^verbatim>\<open>std::invalid_argument\<close>,
  a value outside \<^verbatim>\<open>int\<close> is \<^verbatim>\<open>std::out_of_range\<close>.
\<close>

definition stoi :: "string \<Rightarrow> error + int" where
  "stoi str =
     (let s1 = dropWhile isspace str;
          neg = (s1 \<noteq> [] \<and> hd s1 = CHR ''-'');
          s2 = (if s1 \<noteq> [] \<and> (hd s1 = CHR ''-'' \<or> hd s1 = CHR ''+'') then tl s1 else s1);
          ds = takeWhile isdigit s2;
          v = (if neg then - int (digits_value ds) else int (digits_value ds))
      in if ds = [] then Inl (InvalidArgument ''stoi'')
         else if v < INT_MIN \<or> INT_MAX < v then Inl (OutOfRange ''stoi'')
         else Inr v)"

text \<open>\<^verbatim>\<open>std::to_string\<close> on an unsigned and on a signed integer: the decimal numeral.\<close>

fun to_string_nat :: "nat \<Rightarrow> string" where
  "to_string_nat n =
     (if n < 10 then [digit_char n] else to_string_nat (n div 10) @ [digit_char (n mod 10)])"

declare to_string_nat.simps [simp del]

definition to_string :: "int \<Rightarrow> string" where
  "to_string i = (if i < 0 then CHR ''-'' # to_string_nat (nat (- i)) else to_string_nat (nat i))"

section \<open>PlacementTreeNewickMixin (lib/tree/printer/detailed.hpp, the newick processor header)\<close>

text \<open>
  The payload of a placement tree's edge as far as the mixin touches it: the member
  \<open>edge_num\<close> (an \<^verbatim>\<open>int\<close>) and the value of the method \<^verbatim>\<open>placement_count()\<close>.  Everything else
  an edge carries lives in the record's extension.
\<close>

record PlacementEdge =
  edge_num :: int
  placement_count :: nat

text \<open>The mixin's two options with their default values.\<close>

record PlacementTreeNewickMixin =
  print_edge_nums :: bool
  print_placement_counts :: bool

definition PlacementTreeNewickMixin_default :: PlacementTreeNewickMixin where
  "PlacementTreeNewickMixin_default = \<lparr> print_edge_nums = True, print_placement_counts = False \<rparr>"

text \<open>
  A \<^verbatim>\<open>void\<close> member function that writes through a reference and may throw returns the
  exception, if any, together with the referenced object as the call leaves it.
\<close>

type_synonym 'a mutated = "error option \<times> 'a"

text \<open>The two messages of \<open>element_to_edge\<close>.\<close>

definition missing_tag_message :: "string \<Rightarrow> string" where
  "missing_tag_message nm =
     ''Edge at node '' @ [CHR 0x27] @ nm @ [CHR 0x27] @ '' does not contain a tag value like ''
     @ [CHR 0x27] @ ''{42}'' @ [CHR 0x27] @ '' for the placement edge_num of this edge.''"

definition ambiguous_tag_message :: "string \<Rightarrow> string" where
  "ambiguous_tag_message nm =
     ''Edge at node '' @ [CHR 0x27] @ nm @ [CHR 0x27] @ '' contains more than one tag value like ''
     @ [CHR 0x27] @ ''{xyz}'' @ [CHR 0x27]
     @ ''. Expecting only one for the placement edge_num of this edge.''"

text \<open>
  \<open>element_to_edge\<close>.  The class it wraps (\<^verbatim>\<open>Base\<close>, a template parameter) is the argument
  \<open>base\<close>; its call comes first and an exception of it leaves the function at once.  The
  \<^verbatim>\<open>assert\<close> before \<^verbatim>\<open>std::stoi\<close> cannot fail, since both other sizes have thrown by then.
\<close>

definition element_to_edge ::
  "(NewickBrokerElement \<Rightarrow> 'z PlacementEdge_scheme \<Rightarrow> 'z PlacementEdge_scheme mutated)
   \<Rightarrow> NewickBrokerElement \<Rightarrow> 'z PlacementEdge_scheme \<Rightarrow> 'z PlacementEdge_scheme mutated" where
  "element_to_edge base element edge =
     (case base element edge of
        (Some err, edge1) \<Rightarrow> (Some err, edge1)
      | (None, edge1) \<Rightarrow>
          (let edge2 = edge1\<lparr>edge_num := - 1\<rparr> in
           if length (tags element) = 0
           then (Some (InvalidArgument (missing_tag_message (name element))), edge2)
           else if length (tags element) > 1
           then (Some (InvalidArgument (ambiguous_tag_message (name element))), edge2)
           else (case stoi (tags element ! 0) of
                   Inl err \<Rightarrow> (Some err, edge2)
                 | Inr n \<Rightarrow> (None, edge2\<lparr>edge_num := n\<rparr>))))"

text \<open>\<open>edge_to_element\<close>, with the mixin object \<open>this\<close> and the wrapped class as \<open>base\<close>.\<close>

definition edge_to_element ::
  "PlacementTreeNewickMixin
   \<Rightarrow> ('z PlacementEdge_scheme \<Rightarrow> NewickBrokerElement \<Rightarrow> NewickBrokerElement mutated)
   \<Rightarrow> 'z PlacementEdge_scheme \<Rightarrow> NewickBrokerElement \<Rightarrow> NewickBrokerElement mutated" where
  "edge_to_element this base edge element =
     (case base edge element of
        (Some err, element1) \<Rightarrow> (Some err, element1)
      | (None, element1) \<Rightarrow>
          (let element2 =
                 (if print_edge_nums this
                  then element1\<lparr>tags := tags element1 @ [to_string (edge_num edge)]\<rparr>
                  else element1);
               element3 =
                 (if print_placement_counts this
                  then element2\<lparr>comments := comments element2
                                   @ [to_string_nat (placement_count edge)]\<rparr>
                  else element2)
           in (None, element3)))"

section \<open>MassTreeKmeans (lib/genesis/tree/formats/newick/element.hpp, the kmeans source)\<close>

text \<open>
  The functions \<^verbatim>\<open>tree_data_is\<close>, \<^verbatim>\<open>identical_topology\<close>, \<^verbatim>\<open>mass_tree_clear_masses\<close>,
  \<^verbatim>\<open>mass_tree_merge_trees_inplace\<close>, \<^verbatim>\<open>mass_tree_sum_of_masses\<close>, \<^verbatim>\<open>mass_tree_normalize_masses\<close>
  and \<^verbatim>\<open>utils::almost_equal_relative\<close> that \<^verbatim>\<open>MassTreeKmeans\<close> calls are not among the sources.
  They are parameters of the functions below, under the names the source calls them by; a
  tree (\<^verbatim>\<open>Point\<close>) is a value of any type \<open>'t\<close>, and a \<^verbatim>\<open>double\<close> is a real number that only
  these parameters compute with.  An \<^verbatim>\<open>assert\<close> is a check that fails with \<open>AssertionFailed\<close>.
\<close>

text \<open>
  \<open>data_validation\<close>: the first loop checks the data types of every tree, the second one
  compares each tree with its predecessor in the vector.
\<close>

fun check_data_types :: "('t \<Rightarrow> bool) \<Rightarrow> 't list \<Rightarrow> error option" where
  "check_data_types tree_data_is [] = None"
| "check_data_types tree_data_is (tree # rest) =
     (if \<not> tree_data_is tree
      then Some (InvalidArgument ''Trees for Kmeans do not have MassTree data types.'')
      else check_data_types tree_data_is rest)"

fun check_topologies :: "('t \<Rightarrow> 't \<Rightarrow> bool) \<Rightarrow> 't list \<Rightarrow> error option" where
  "check_topologies identical_topology (prev # cur # rest) =
     (if \<not> identical_topology prev cur
      then Some (InvalidArgument ''Trees for Kmeans do not have identical topologies.'')
      else check_topologies identical_topology (cur # rest))"
| "check_topologies identical_topology [tree] = None"
| "check_topologies identical_topology [] = None"

definition data_validation ::
  "('t \<Rightarrow> bool) \<Rightarrow> ('t \<Rightarrow> 't \<Rightarrow> bool) \<Rightarrow> 't list \<Rightarrow> error + bool" where
  "data_validation tree_data_is identical_topology data =
     (case check_data_types tree_data_is data of
        Some err \<Rightarrow> Inl err
      | None \<Rightarrow>
          (case check_topologies identical_topology data of
             Some err \<Rightarrow> Inl err
           | None \<Rightarrow> Inr True))"

text \<open>The helper functions \<open>update_centroids\<close> calls, collected.\<close>

record 't mass_tree_functions =
  mass_tree_clear_masses :: "'t \<Rightarrow> 't"
  mass_tree_merge_trees_inplace :: "'t \<Rightarrow> 't \<Rightarrow> 't"
  mass_tree_sum_of_masses :: "'t \<Rightarrow> real"
  mass_tree_normalize_masses :: "'t \<Rightarrow> 't"
  almost_equal_relative :: "real \<Rightarrow> real \<Rightarrow> real \<Rightarrow> bool"

text \<open>
  The accumulation loop of \<open>update_centroids\<close>, over the data and their assignments side by
  side (the two vectors have the same length when the loop starts): the assignment is
  asserted to be an index of a centroid, the datum is merged into that centroid and the
  centroid's count goes up by one.
\<close>

fun accumulate ::
  "'t mass_tree_functions \<Rightarrow> 't list \<Rightarrow> nat list \<Rightarrow> 't list \<times> nat list
   \<Rightarrow> error + 't list \<times> nat list" where
  "accumulate f (datum # data) (a # assignments) (centroids, counts) =
     (if \<not> a < length centroids then Inl AssertionFailed
      else accumulate f data assignments
             (centroids[a := mass_tree_merge_trees_inplace f (centroids ! a) datum],
              counts[a := counts ! a + 1]))"
| "accumulate f data assignments (centroids, counts) = Inr (centroids, counts)"

text \<open>
  The normalization loop: the count of each centroid is asserted to be almost equal to the
  sum of its masses, then the centroid is normalized.
\<close>

fun normalize_centroids ::
  "'t mass_tree_functions \<Rightarrow> 't list \<Rightarrow> nat list \<Rightarrow> error + 't list" where
  "normalize_centroids f (centroid # centroids) (n # counts) =
     (if \<not> almost_equal_relative f (real n) (mass_tree_sum_of_masses f centroid) 0.00001
      then Inl AssertionFailed
      else (case normalize_centroids f centroids counts of
              Inl err \<Rightarrow> Inl err
            | Inr rest \<Rightarrow> Inr (mass_tree_normalize_masses f centroid # rest)))"
| "normalize_centroids f centroids counts = Inr []"

definition update_centroids ::
  "'t mass_tree_functions \<Rightarrow> 't list \<Rightarrow> nat list \<Rightarrow> 't list \<Rightarrow> error + 't list" where
  "update_centroids f data assignments centroids =
     (let cleared = map (mass_tree_clear_masses f) centroids in
      if length data \<noteq> length assignments then Inl AssertionFailed
      else (case accumulate f data assignments (cleared, replicate (length cleared) 0) of
              Inl err \<Rightarrow> Inl err
            | Inr (merged, counts) \<Rightarrow> normalize_centroids f merged counts))"

text \<open>
  What the loops compute, said without the loops: the data assigned to centroid \<open>i\<close>, in the
  order of the input, and the centroid they accumulate to.
\<close>

definition assigned_to :: "'t list \<Rightarrow> nat list \<Rightarrow> nat \<Rightarrow> 't list" where
  "assigned_to data assignments i = map fst (filter (\<lambda>(datum, a). a = i) (zip data assignments))"

definition accumulated :: "'t mass_tree_functions \<Rightarrow> 't list \<Rightarrow> nat list \<Rightarrow> 't \<Rightarrow> nat \<Rightarrow> 't" where
  "accumulated f data assignments centroid i =
     foldl (mass_tree_merge_trees_inplace f) (mass_tree_clear_masses f centroid)
       (assigned_to data assignments i)"

text \<open>
  Modelled from the spec: one instance of the helper functions that are not among the
  sources, to run \<open>update_centroids\<close> on, after section 4.5 of the specification.  A tree is
  the list of the masses on its edges, clearing sets them to zero, merging adds edge by
  edge, normalizing divides by the sum, and two numbers are almost equal when they differ
  by at most the given fraction of the larger one.
\<close>

definition list_mass_functions :: "real list mass_tree_functions" where
  "list_mass_functions =
     \<lparr> mass_tree_clear_masses = map (\<lambda>m. 0),
       mass_tree_merge_trees_inplace = map2 (+),
       mass_tree_sum_of_masses = sum_list,
       mass_tree_normalize_masses = (\<lambda>tree. map (\<lambda>m. m / sum_list tree) tree),
       almost_equal_relative = (\<lambda>lhs rhs d. \<bar>lhs - rhs\<bar> \<le> max \<bar>lhs\<bar> \<bar>rhs\<bar> * d) \<rparr>"

section \<open>Input stream and literal parsers (lib/utils/io/input_stream.hpp, lib/utils/io/parser.hpp)\<close>

text \<open>
  Modelled from the spec: the input stream and the parsers \<^verbatim>\<open>parse_unsigned_integer\<close>,
  \<^verbatim>\<open>parse_signed_integer\<close>, \<^verbatim>\<open>parse_float\<close> and \<^verbatim>\<open>parse_quoted_string\<close> are not among the
  sources; only their tests (test/src/utils/io/lexing.cpp) are.  The definitions follow
  sections 3 and 4.1 of the specification, one character at a time, and where the tests
  fix a detail the specification leaves open or words differently, they follow the tests:
  the column of a stream over the empty input is 0 and the column of any other stream
  starts at 1 (\<^verbatim>\<open>test_uint("", 0, 0)\<close>, \<^verbatim>\<open>test_uint(" ", 0, 1)\<close>); consuming a newline starts a
  new line at column 1 (\<^verbatim>\<open>test_string("\nbla\n", "bla", 1, ...)\<close>); an exponent marker and the
  sign after it are consumed also when no digit follows (\<^verbatim>\<open>test_float("123.45e", 123.45, 8)\<close>).
  The integer types are those of the tests, \<^verbatim>\<open>unsigned int\<close> and \<^verbatim>\<open>int\<close>, given to the parsers
  as bounds; the value of a float literal is the rational number it denotes.
\<close>

record InputStream =
  remaining :: string
  line :: nat
  column :: nat

definition InputStream_ctor :: "string \<Rightarrow> InputStream" where
  "InputStream_ctor str =
     (if str = [] then \<lparr> remaining = [], line = 0, column = 0 \<rparr>
      else \<lparr> remaining = str, line = 1, column = 1 \<rparr>)"

text \<open>The stream has a current character (\<^verbatim>\<open>operator bool\<close>), which \<open>current\<close> reads.\<close>

definition good :: "InputStream \<Rightarrow> bool" where
  "good source = (remaining source \<noteq> [])"

definition current :: "InputStream \<Rightarrow> char" where
  "current source = hd (remaining source)"

text \<open>Consuming the current character; at the end of the input there is nothing to consume.\<close>

definition advance :: "InputStream \<Rightarrow> InputStream" where
  "advance source =
     (case remaining source of
        [] \<Rightarrow> source
      | c # rest \<Rightarrow>
          if c = CHR 0x0A
          then source\<lparr>remaining := rest, line := line source + 1, column := 1\<rparr>
          else source\<lparr>remaining := rest, column := column source + 1\<rparr>)"

text \<open>
  The digit loop of the unsigned parser: digits are accumulated while there are any, and a
  value beyond the largest one of the target type is an overflow error.
\<close>

function unsigned_loop :: "int \<Rightarrow> int \<Rightarrow> InputStream \<Rightarrow> error + int \<times> InputStream" where
  "unsigned_loop maxv x source =
     (if good source \<and> isdigit (current source)
      then (let y = int (digit_val (current source)) in
            if maxv < 10 * x + y then Inl OverflowError
            else unsigned_loop maxv (10 * x + y) (advance source))
      else Inr (x, source))"
  by pat_completeness auto
termination
  by (relation "measure (\<lambda>(maxv, x, source). length (remaining source))")
     (auto simp: good_def advance_def split: list.splits)

declare unsigned_loop.simps [simp del]

definition parse_unsigned_integer :: "int \<Rightarrow> InputStream \<Rightarrow> error + int \<times> InputStream" where
  "parse_unsigned_integer maxv source = unsigned_loop maxv 0 source"

text \<open>The same loop below zero, after a minus sign: an underflow error beyond the smallest value.\<close>

function negative_loop :: "int \<Rightarrow> int \<Rightarrow> InputStream \<Rightarrow> error + int \<times> InputStream" where
  "negative_loop minv x source =
     (if good source \<and> isdigit (current source)
      then (let y = int (digit_val (current source)) in
            if 10 * x - y < minv then Inl UnderflowError
            else negative_loop minv (10 * x - y) (advance source))
      else Inr (x, source))"
  by pat_completeness auto
termination
  by (relation "measure (\<lambda>(minv, x, source). length (remaining source))")
     (auto simp: good_def advance_def split: list.splits)

declare negative_loop.simps [simp del]

definition parse_signed_integer ::
  "int \<Rightarrow> int \<Rightarrow> InputStream \<Rightarrow> error + int \<times> InputStream" where
  "parse_signed_integer minv maxv source =
     (if \<not> good source then Inr (0, source)
      else if current source = CHR ''-'' then negative_loop minv 0 (advance source)
      else if current source = CHR ''+'' then parse_unsigned_integer maxv (advance source)
      else parse_unsigned_integer maxv source)"

text \<open>The integer part and the fractional part of a float literal.\<close>

function integer_part :: "rat \<Rightarrow> InputStream \<Rightarrow> rat \<times> InputStream" where
  "integer_part x source =
     (if good source \<and> isdigit (current source)
      then integer_part (10 * x + of_nat (digit_val (current source))) (advance source)
      else (x, source))"
  by pat_completeness auto
termination
  by (relation "measure (\<lambda>(x, source). length (remaining source))")
     (auto simp: good_def advance_def split: list.splits)

declare integer_part.simps [simp del]

function fractional_part :: "rat \<Rightarrow> rat \<Rightarrow> InputStream \<Rightarrow> rat \<times> InputStream" where
  "fractional_part pos x source =
     (if good source \<and> isdigit (current source)
      then fractional_part (pos / 10) (x + of_nat (digit_val (current source)) * (pos / 10))
             (advance source)
      else (x, source))"
  by pat_completeness auto
termination
  by (relation "measure (\<lambda>(pos, x, source). length (remaining source))")
     (auto simp: good_def advance_def split: list.splits)

declare fractional_part.simps [simp del]

text \<open>
  Sign, integer part, separator and fractional digits: whether the literal is negative,
  the magnitude read so far and the stream after it.
\<close>

definition parse_mantissa :: "InputStream \<Rightarrow> bool \<times> rat \<times> InputStream" where
  "parse_mantissa source =
     (let is_neg = (good source \<and> current source = CHR ''-'');
          s1 = (if good source \<and> (current source = CHR ''-'' \<or> current source = CHR ''+'')
                then advance source else source);
          (x, s2) = integer_part 0 s1
      in if good s2 \<and> (current s2 = CHR ''.'' \<or> current s2 = CHR '','')
         then (let (x', s3) = fractional_part 1 x (advance s2) in (is_neg, x', s3))
         else (is_neg, x, s2))"

text \<open>Scaling by a power of ten, for an exponent of either sign.\<close>

definition scale10 :: "rat \<Rightarrow> int \<Rightarrow> rat" where
  "scale10 x e = (if e < 0 then x / 10 ^ nat (- e) else x * 10 ^ nat e)"

text \<open>
  \<open>parse_float\<close>: the mantissa, then after an exponent marker a signed integer, whose
  overflow and underflow errors are those of the float.  Without a digit that integer is 0.
\<close>

definition parse_float :: "InputStream \<Rightarrow> error + rat \<times> InputStream" where
  "parse_float source =
     (if \<not> good source then Inr (0, source)
      else (let (is_neg, x, s3) = parse_mantissa source in
            if good s3 \<and> (current s3 = CHR ''e'' \<or> current s3 = CHR ''E'')
            then (case parse_signed_integer INT_MIN INT_MAX (advance s3) of
                    Inl err \<Rightarrow> Inl err
                  | Inr (e, s4) \<Rightarrow> Inr (if is_neg then - scale10 x e else scale10 x e, s4))
            else Inr (if is_neg then - x else x, s3)))"

text \<open>The character an escape sequence stands for.\<close>

definition deescape :: "char \<Rightarrow> char" where
  "deescape c =
     (if c = CHR ''r'' then CHR 0x0D
      else if c = CHR ''n'' then CHR 0x0A
      else if c = CHR ''t'' then CHR 0x09
      else c)"

text \<open>
  The body of a quoted string, after the opening delimiter \<open>qmark\<close>.  The delimiter ends
  the string, unless delimiters are doubled (\<open>use_twin_quotes\<close>) and another one follows,
  which then stands for one delimiter character.  With \<open>use_escapes\<close> a backslash escapes
  the character after it.  The end of the input before the closing delimiter, or right
  after a backslash, is an error.
\<close>

function string_loop ::
  "bool \<Rightarrow> bool \<Rightarrow> char \<Rightarrow> string \<Rightarrow> InputStream \<Rightarrow> error + string \<times> InputStream" where
  "string_loop use_escapes use_twin_quotes qmark val source =
     (if \<not> good source then Inl RuntimeError
      else if current source = qmark
      then (if \<not> use_twin_quotes then Inr (val, advance source)
            else if good (advance source) \<and> current (advance source) = qmark
            then string_loop use_escapes use_twin_quotes qmark (val @ [qmark])
                   (advance (advance source))
            else Inr (val, advance source))
      else if current source = CHR 0x5C \<and> use_escapes
      then (if \<not> good (advance source) then Inl RuntimeError
            else string_loop use_escapes use_twin_quotes qmark
                   (val @ [deescape (current (advance source))]) (advance (advance source)))
      else string_loop use_escapes use_twin_quotes qmark (val @ [current source])
             (advance source))"
  by pat_completeness auto
termination
  by (relation "measure (\<lambda>(ue, utq, qmark, val, source). length (remaining source))")
     (auto simp: good_def advance_def split: list.splits)

declare string_loop.simps [simp del]

definition parse_quoted_string ::
  "bool \<Rightarrow> bool \<Rightarrow> bool \<Rightarrow> InputStream \<Rightarrow> error + string \<times> InputStream" where
  "parse_quoted_string use_escapes use_twin_quotes include_qmarks source =
     (if \<not> good source then Inr ([], source)
      else (let qmark = current source in
            case string_loop use_escapes use_twin_quotes qmark
                   (if include_qmarks then [qmark] else []) (advance source) of
              Inl err \<Rightarrow> Inl err
            | Inr (val, s) \<Rightarrow> Inr (if include_qmarks then val @ [qmark] else val, s)))"

text \<open>
  A string with every delimiter character doubled: what stands between the delimiters of
  a quoted string in the doubled-delimiter mode.
\<close>

definition double_delimiters :: "char \<Rightarrow> string \<Rightarrow> string" where
  "double_delimiters qmark str = concat (map (\<lambda>c. if c = qmark then [c, c] else [c]) str)"

text \<open>
  The longest numeric prefix of an input: the sign an input starts with, if any, and the
  digits it starts with.
\<close>

definition leading_sign :: "string \<Rightarrow> string" where
  "leading_sign str =
     (if str \<noteq> [] \<and> (hd str = CHR ''-'' \<or> hd str = CHR ''+'') then [hd str] else [])"

definition leading_digits :: "string \<Rightarrow> string" where
  "leading_digits str = takeWhile isdigit str"

section \<open>Tree topology and the Euler tour iterator (lib/tree/function/emd_tree.hpp, the eulertour header)\<close>

text \<open>
  Modelled from the spec: the classes \<^verbatim>\<open>Tree\<close> and \<^verbatim>\<open>TreeLink\<close> are not among the sources; the
  iterator only calls \<^verbatim>\<open>outer()\<close> and \<^verbatim>\<open>next()\<close> of a link.  Following section 3 of the
  specification, a tree owns its links and its edges, every edge connects two links, and
  every link has a \<^verbatim>\<open>next\<close> link (the ring of its node) and an \<^verbatim>\<open>outer\<close> link (the other end of
  its edge).  Links are values of any type \<open>'l\<close>; \<open>link_next\<close> and \<open>link_outer\<close> stand for
  the two pointers.
\<close>

record 'l Tree =
  links :: "'l list"
  edges :: "('l \<times> 'l) list"
  link_next :: "'l \<Rightarrow> 'l"
  link_outer :: "'l \<Rightarrow> 'l"

text \<open>
  The smallest tree with a link is one edge between two leaves: each of its two links is
  alone in the ring of its node and is the outer link of the other.
\<close>

definition single_edge :: "'l \<Rightarrow> 'l \<Rightarrow> 'l Tree" where
  "single_edge a b =
     \<lparr> links = [a, b], edges = [(a, b)],
       link_next = (\<lambda>l. l),
       link_outer = (\<lambda>l. if l = a then b else if l = b then a else l) \<rparr>"

text \<open>
  Attaching a leaf to the node of the link \<open>p\<close>: the new edge has the link \<open>u\<close>, which
  enters the ring of that node right after \<open>p\<close>, and the link \<open>v\<close>, which is the only link
  of the new leaf.
\<close>

definition attach_leaf :: "'l Tree \<Rightarrow> 'l \<Rightarrow> 'l \<Rightarrow> 'l \<Rightarrow> 'l Tree" where
  "attach_leaf tree p u v =
     \<lparr> links = links tree @ [u, v], edges = edges tree @ [(u, v)],
       link_next = (link_next tree)(p := u, u := link_next tree p, v := v),
       link_outer = (link_outer tree)(u := v, v := u) \<rparr>"

text \<open>
  The link structures that are trees.  A tree with at least two edges has a leaf whose
  neighbour has another link, and without that leaf it is a tree again; so every tree
  with an edge, with any order of the links around its nodes, is built from a single edge
  by attaching leaves.
\<close>

inductive tree_topology :: "'l Tree \<Rightarrow> bool" where
  single: "a \<noteq> b \<Longrightarrow> tree_topology (single_edge a b)"
| attach: "tree_topology tree \<Longrightarrow> p \<in> set (links tree) \<Longrightarrow> u \<notin> set (links tree)
           \<Longrightarrow> v \<notin> set (links tree) \<Longrightarrow> u \<noteq> v \<Longrightarrow> tree_topology (attach_leaf tree p u v)"

text \<open>
  The iterator: the members \<^verbatim>\<open>link_\<close> (a null pointer at the end of the tour) and \<^verbatim>\<open>start_\<close>,
  written \<open>link_m\<close> and \<open>start_m\<close>, and the constructor from a link.
\<close>

record 'l TreeIteratorEulertour =
  link_m :: "'l option"
  start_m :: "'l"

definition TreeIteratorEulertour_ctor :: "'l \<Rightarrow> 'l TreeIteratorEulertour" where
  "TreeIteratorEulertour_ctor link = \<lparr> link_m = Some link, start_m = link \<rparr>"

text \<open>
  \<^verbatim>\<open>operator ++\<close>.  It reads the tree and returns the iterator; on an iterator that is at its
  end it dereferences the null pointer, which is \<open>None\<close> here.
\<close>

definition increment ::
  "'l Tree \<Rightarrow> 'l TreeIteratorEulertour \<Rightarrow> 'l TreeIteratorEulertour option" where
  "increment tree it =
     (case link_m it of
        None \<Rightarrow> None
      | Some l \<Rightarrow>
          (let l' = link_next tree (link_outer tree l) in
           Some (it\<lparr>link_m := (if l' = start_m it then None else Some l')\<rparr>)))"

text \<open>
  A tour: the links an iterator is at, from where it stands until it reaches its end.
  The loop \<^verbatim>\<open>for (; it.link() != nullptr; ++it)\<close> need not end on every link structure, so
  the tour is a partial function.
\<close>

partial_function (option) tour ::
  "'l Tree \<Rightarrow> 'l TreeIteratorEulertour \<Rightarrow> 'l list option" where
  "tour tree it =
     (case link_m it of
        None \<Rightarrow> Some []
      | Some l \<Rightarrow>
          Option.bind (increment tree it)
            (\<lambda>it'. Option.bind (tour tree it') (\<lambda>rest. Some (l # rest))))"

declare tour.simps [code]

text \<open>
  One step of the tour, \<^verbatim>\<open>link->outer()->next()\<close>, and what it means that the steps run
  through a list of links and from its last link back to its first: the list is a cycle
  of the tour through all links of the tree.
\<close>

definition euler_step :: "'l Tree \<Rightarrow> 'l \<Rightarrow> 'l" where
  "euler_step tree l = link_next tree (link_outer tree l)"

definition tour_cycle :: "'l Tree \<Rightarrow> 'l list \<Rightarrow> bool" where
  "tour_cycle tree cyc \<longleftrightarrow>
     cyc \<noteq> [] \<and> distinct cyc \<and> set cyc = set (links tree)
     \<and> successively (\<lambda>x y. euler_step tree x = y) cyc
     \<and> euler_step tree (last cyc) = hd cyc"

text \<open>The outer link of a link of the tree is a link of the tree, and its outer link is the link.\<close>

definition outer_closed :: "'l Tree \<Rightarrow> bool" where
  "outer_closed tree \<longleftrightarrow>
     (\<forall>l \<in> set (links tree). link_outer tree l \<in> set (links tree)
                              \<and> link_outer tree (link_outer tree l) = l)"

text \<open>
  A tree to run the iterator on: an edge between the links 0 and 1, a leaf attached to the
  node of link 0 and a leaf attached to the node of link 1.
\<close>

definition example_tree :: "nat Tree" where
  "example_tree = attach_leaf (attach_leaf (single_edge 0 1) 0 2 3) 1 4 5"

chapter \<open>Properties\<close>

section \<open>Rank queries before the finalization pass\<close>

text \<open>
  Claim C3.  On an element whose rank has not been assigned (\<open>rank_m\<close> is still negative, as
  the constructor leaves it), \<open>rank\<close>, \<open>is_leaf\<close> and \<open>is_inner\<close> each raise a logic error,
  whereas \<open>is_root\<close> is a plain boolean that equals \<open>depth = 0\<close> and raises nothing, whatever
  the rank is.  The freshly constructed element is such an element.
\<close>

theorem unset_rank_queries_raise:
  assumes "rank_m el < 0"
  shows "(\<exists>m. rank el = Inl (LogicError m))
       \<and> (\<exists>m. is_leaf el = Inl (LogicError m))
       \<and> (\<exists>m. is_inner el = Inl (LogicError m))
       \<and> is_root el = (depth el = 0)
       \<and> rank_m NewickBrokerElement_ctor < 0"
  using assms by (simp add: rank_def is_leaf_def is_inner_def is_root_def NewickBrokerElement_ctor_def)

theorem unset_rank_queries_raise_witness:
  "rank_m NewickBrokerElement_ctor < 0
   \<and> rank NewickBrokerElement_ctor
       = Inl (LogicError ''NewickBroker::assign_ranks() was not called before.'')
   \<and> (\<exists>m. is_leaf (NewickBrokerElement_ctor\<lparr>depth := 0\<rparr>) = Inl (LogicError m))
   \<and> (\<exists>m. is_inner (NewickBrokerElement_ctor\<lparr>depth := 0\<rparr>) = Inl (LogicError m))
   \<and> is_root (NewickBrokerElement_ctor\<lparr>depth := 0\<rparr>)
   \<and> \<not> is_root NewickBrokerElement_ctor"
  using unset_rank_queries_raise [of "NewickBrokerElement_ctor\<lparr>depth := 0\<rparr>"]
  by (simp add: NewickBrokerElement_ctor_def rank_def is_root_def)

section \<open>Decimal numerals: printing and reading back\<close>

lemma isdigit_not_sign_space:
  "isdigit c \<Longrightarrow> c \<noteq> CHR ''-'' \<and> c \<noteq> CHR ''+'' \<and> \<not> isspace c"
  unfolding isdigit_def isspace_def by auto

lemma digit_char_props: "d < 10 \<Longrightarrow> isdigit (digit_char d) \<and> digit_val (digit_char d) = d"
  unfolding isdigit_def digit_char_def digit_val_def by simp

lemma digits_value_snoc: "digits_value (ds @ [c]) = 10 * digits_value ds + digit_val c"
  by (simp add: digits_value_def)

lemma to_string_nat_digits: "\<forall>c \<in> set (to_string_nat n). isdigit c"
proof (induction n rule: to_string_nat.induct)
  case (1 n)
  then show ?case
    by (subst to_string_nat.simps) (auto simp: digit_char_props)
qed

lemma to_string_nat_nonempty: "to_string_nat n \<noteq> []"
  by (subst to_string_nat.simps) simp

lemma to_string_nat_value: "digits_value (to_string_nat n) = n"
proof (induction n rule: to_string_nat.induct)
  case (1 n)
  show ?case
  proof (cases "n < 10")
    case True
    then show ?thesis by (subst to_string_nat.simps) (simp add: digits_value_def digit_char_props)
  next
    case False
    then have "digits_value (to_string_nat (n div 10)) = n div 10" using 1 by simp
    with False show ?thesis
      by (subst to_string_nat.simps) (simp add: digits_value_snoc digit_char_props)
  qed
qed

lemma stoi_digits:
  assumes "ds \<noteq> []" "\<forall>c \<in> set ds. isdigit c"
  shows "stoi ds = (if INT_MAX < int (digits_value ds) then Inl (OutOfRange ''stoi'') else Inr (int (digits_value ds)))"
proof -
  obtain c r where ds: "ds = c # r" using assms(1) by (cases ds) auto
  have c: "isdigit c" using assms(2) ds by simp
  have dw: "dropWhile isspace ds = ds" using c isdigit_not_sign_space[OF c] ds by simp
  have tw: "takeWhile isdigit ds = ds" using assms(2) by simp
  have h: "hd ds \<noteq> CHR ''-''" "hd ds \<noteq> CHR ''+''"
    using isdigit_not_sign_space[OF c] ds by simp_all
  show ?thesis
    by (simp add: stoi_def Let_def dw tw h assms(1) INT_MIN_def)
qed

lemma stoi_minus_digits:
  assumes "ds \<noteq> []" "\<forall>c \<in> set ds. isdigit c"
  shows "stoi (CHR ''-'' # ds) = (if - int (digits_value ds) < INT_MIN then Inl (OutOfRange ''stoi'') else Inr (- int (digits_value ds)))"
proof -
  have sp: "\<not> isspace CHR ''-''" by (simp add: isspace_def)
  have tw: "takeWhile isdigit ds = ds" using assms(2) by simp
  show ?thesis
    unfolding stoi_def Let_def using assms(1)
    by (simp add: sp tw INT_MAX_def)
qed

lemma stoi_to_string:
  assumes "INT_MIN \<le> i" "i \<le> INT_MAX"
  shows "stoi (to_string i) = Inr i"
proof (cases "i < 0")
  case True
  then show ?thesis
    using assms stoi_minus_digits [OF to_string_nat_nonempty to_string_nat_digits, of "nat (- i)"]
    by (simp add: to_string_def to_string_nat_value)
next
  case False
  then show ?thesis
    using assms stoi_digits [OF to_string_nat_nonempty to_string_nat_digits, of "nat i"]
    by (simp add: to_string_def to_string_nat_value)
qed

lemma stoi_range: "stoi s = Inr n \<Longrightarrow> INT_MIN \<le> n \<and> n \<le> INT_MAX"
  unfolding stoi_def Let_def by (auto split: if_splits)

section \<open>The edge-number tag of the placement mixin\<close>

lemma element_to_edge_no_tag:
  assumes "base element edge = (None, edge1)" "tags element = []"
  shows "element_to_edge base element edge
         = (Some (InvalidArgument (missing_tag_message (name element))), edge1\<lparr>edge_num := - 1\<rparr>)"
  using assms by (simp add: element_to_edge_def Let_def)

lemma element_to_edge_many_tags:
  assumes "base element edge = (None, edge1)" "1 < length (tags element)"
  shows "element_to_edge base element edge
         = (Some (InvalidArgument (ambiguous_tag_message (name element))), edge1\<lparr>edge_num := - 1\<rparr>)"
  using assms by (auto simp add: element_to_edge_def Let_def)

lemma element_to_edge_one_tag:
  assumes "base element edge = (None, edge1)" "tags element = [t]"
  shows "element_to_edge base element edge
         = (case stoi t of Inl err \<Rightarrow> (Some err, edge1\<lparr>edge_num := - 1\<rparr>)
                         | Inr n \<Rightarrow> (None, edge1\<lparr>edge_num := n\<rparr>))"
  using assms by (simp add: element_to_edge_def Let_def split: sum.splits)

lemma edge_num_update_neq: "edge_num e \<noteq> k \<Longrightarrow> e\<lparr>edge_num := k\<rparr> \<noteq> e"
proof
  assume a: "edge_num e \<noteq> k" and b: "e\<lparr>edge_num := k\<rparr> = e"
  from b have "edge_num (e\<lparr>edge_num := k\<rparr>) = edge_num e" by simp
  then show False using a by simp
qed

text \<open>
  Claim C2, as the code has it.  Once the wrapped class has returned, \<open>element_to_edge\<close>
  raises the missing-annotation error on an element without a tag and the
  ambiguous-annotation error on an element with more than one tag.  With exactly one tag
  it hands the tag to \<open>stoi\<close>: a tag \<open>stoi\<close> rejects raises the error of \<open>stoi\<close>, a tag it
  accepts succeeds and sets \<open>edge_num\<close> to the number read.  Printing the edge so built with
  edge-number printing enabled appends exactly one tag to what the wrapped class produced,
  the decimal numeral of \<open>edge_num\<close>, and \<open>stoi\<close> reads that numeral back as the same number.
\<close>

theorem element_to_edge_by_tag_count:
  assumes "base element edge = (None, edge1)"
  shows "(tags element = [] \<longrightarrow>
            element_to_edge base element edge
            = (Some (InvalidArgument (missing_tag_message (name element))),
               edge1\<lparr>edge_num := - 1\<rparr>))
       \<and> (1 < length (tags element) \<longrightarrow>
            element_to_edge base element edge
            = (Some (InvalidArgument (ambiguous_tag_message (name element))),
               edge1\<lparr>edge_num := - 1\<rparr>))
       \<and> (\<forall>t err. tags element = [t] \<and> stoi t = Inl err \<longrightarrow>
            element_to_edge base element edge = (Some err, edge1\<lparr>edge_num := - 1\<rparr>))
       \<and> (\<forall>t n. tags element = [t] \<and> stoi t = Inr n \<longrightarrow>
            element_to_edge base element edge = (None, edge1\<lparr>edge_num := n\<rparr>)
            \<and> stoi (to_string n) = Inr n
            \<and> (\<forall>this pbase fresh printed.
                  print_edge_nums this \<and> pbase (edge1\<lparr>edge_num := n\<rparr>) fresh = (None, printed)
                  \<longrightarrow> (\<exists>element2.
                         edge_to_element this pbase (edge1\<lparr>edge_num := n\<rparr>) fresh = (None, element2)
                         \<and> tags element2 = tags printed @ [to_string n])))"
proof -
  have no_tag: "tags element = [] \<longrightarrow>
            element_to_edge base element edge
            = (Some (InvalidArgument (missing_tag_message (name element))),
               edge1\<lparr>edge_num := - 1\<rparr>)"
    using assms element_to_edge_no_tag [of base element edge edge1] by simp
  have many: "1 < length (tags element) \<longrightarrow>
            element_to_edge base element edge
            = (Some (InvalidArgument (ambiguous_tag_message (name element))),
               edge1\<lparr>edge_num := - 1\<rparr>)"
    using assms element_to_edge_many_tags [of base element edge edge1] by simp
  have bad: "\<forall>t err. tags element = [t] \<and> stoi t = Inl err \<longrightarrow>
            element_to_edge base element edge = (Some err, edge1\<lparr>edge_num := - 1\<rparr>)"
    using assms element_to_edge_one_tag [of base element edge edge1] by simp
  have good: "\<forall>t n. tags element = [t] \<and> stoi t = Inr n \<longrightarrow>
            element_to_edge base element edge = (None, edge1\<lparr>edge_num := n\<rparr>)
            \<and> stoi (to_string n) = Inr n"
    using assms element_to_edge_one_tag [of base element edge edge1] stoi_range stoi_to_string
    by fastforce
  have print: "\<forall>n this pbase fresh printed.
                  print_edge_nums this \<and> pbase (edge1\<lparr>edge_num := n\<rparr>) fresh = (None, printed)
                  \<longrightarrow> (\<exists>element2.
                         edge_to_element this pbase (edge1\<lparr>edge_num := n\<rparr>) fresh = (None, element2)
                         \<and> tags element2 = tags printed @ [to_string n])"
    by (simp add: edge_to_element_def Let_def)
  show ?thesis
    using no_tag many bad good print by blast
qed

theorem element_to_edge_by_tag_count_witness:
  "element_to_edge (\<lambda>el e. (None, e))
       (NewickBrokerElement_ctor\<lparr>name := ''A'', tags := [''42'']\<rparr>)
       \<lparr>edge_num = 0, placement_count = 3\<rparr>
     = (None, \<lparr>edge_num = 42, placement_count = 3\<rparr>)
   \<and> stoi (to_string 42) = Inr 42
   \<and> edge_to_element PlacementTreeNewickMixin_default (\<lambda>e el. (None, el))
         \<lparr>edge_num = 42, placement_count = 3\<rparr> NewickBrokerElement_ctor
       = (None, NewickBrokerElement_ctor\<lparr>tags := [''42'']\<rparr>)"
proof -
  have s: "stoi ''42'' = Inr 42" by code_simp
  have t: "to_string 42 = ''42''" by code_simp
  have "edge_to_element PlacementTreeNewickMixin_default (\<lambda>e el. (None, el))
         \<lparr>edge_num = 42, placement_count = 3\<rparr> NewickBrokerElement_ctor
       = (None, NewickBrokerElement_ctor\<lparr>tags := [''42'']\<rparr>)"
    by (simp add: edge_to_element_def PlacementTreeNewickMixin_default_def t
        NewickBrokerElement_ctor_def)
  then show ?thesis
    using element_to_edge_by_tag_count
      [of "\<lambda>el e. (None, e)" "NewickBrokerElement_ctor\<lparr>name := ''A'', tags := [''42'']\<rparr>"
          "\<lparr>edge_num = 0, placement_count = 3\<rparr>" "\<lparr>edge_num = 0, placement_count = 3\<rparr>"] s
    by simp
qed

text \<open>
  The claim as the specification words it fails on two inputs.  The element with the single
  tag \<^verbatim>\<open>x\<close> has exactly one tag and does not succeed: \<open>stoi\<close> throws.  The element with the
  single tag \<^verbatim>\<open>007\<close> succeeds with edge number 7, and printing that edge yields the tag \<^verbatim>\<open>7\<close>,
  not the tag that was parsed.
\<close>

theorem single_tag_counterexample:
  "length (tags (NewickBrokerElement_ctor\<lparr>name := ''A'', tags := [''x'']\<rparr>)) = 1
   \<and> element_to_edge (\<lambda>el e. (None, e))
        (NewickBrokerElement_ctor\<lparr>name := ''A'', tags := [''x'']\<rparr>)
        \<lparr>edge_num = 0, placement_count = 0\<rparr>
      = (Some (InvalidArgument ''stoi''), \<lparr>edge_num = - 1, placement_count = 0\<rparr>)
   \<and> element_to_edge (\<lambda>el e. (None, e))
        (NewickBrokerElement_ctor\<lparr>name := ''A'', tags := [''007'']\<rparr>)
        \<lparr>edge_num = 0, placement_count = 0\<rparr>
      = (None, \<lparr>edge_num = 7, placement_count = 0\<rparr>)
   \<and> tags (snd (edge_to_element PlacementTreeNewickMixin_default (\<lambda>e el. (None, el))
                   \<lparr>edge_num = 7, placement_count = 0\<rparr> NewickBrokerElement_ctor))
      = [''7'']
   \<and> [''7''] \<noteq> tags (NewickBrokerElement_ctor\<lparr>name := ''A'', tags := [''007'']\<rparr>)"
proof -
  have s1: "stoi ''x'' = Inl (InvalidArgument ''stoi'')" by code_simp
  have s2: "stoi ''007'' = Inr 7" by code_simp
  have t: "to_string 7 = ''7''" by code_simp
  show ?thesis
    by (simp add: element_to_edge_def edge_to_element_def PlacementTreeNewickMixin_default_def
        s1 s2 t NewickBrokerElement_ctor_def)
qed

text \<open>
  Claim C10.  When the wrapped class has returned and the element does not carry exactly one
  tag, \<open>element_to_edge\<close> raises its invalid-argument error with the edge already written:
  the edge it leaves behind is the one the wrapped class produced with \<open>edge_num\<close> set to
  \<open>-1\<close>, so an edge whose number was anything else has changed.
\<close>

theorem element_to_edge_error_after_write:
  assumes "base element edge = (None, edge1)" and "length (tags element) \<noteq> 1"
  shows "(\<exists>msg. element_to_edge base element edge
                = (Some (InvalidArgument msg), edge1\<lparr>edge_num := - 1\<rparr>))
       \<and> edge_num (snd (element_to_edge base element edge)) = - 1
       \<and> (edge_num edge1 \<noteq> - 1 \<longrightarrow> snd (element_to_edge base element edge) \<noteq> edge1)"
proof (cases "tags element = []")
  case True
  then show ?thesis
    using assms(1) element_to_edge_no_tag [of base element edge edge1]
      edge_num_update_neq [of edge1 "- 1"] by auto
next
  case False
  then have "1 < length (tags element)" using assms(2) by (cases "tags element") auto
  then show ?thesis
    using assms(1) element_to_edge_many_tags [of base element edge edge1]
      edge_num_update_neq [of edge1 "- 1"] by auto
qed

theorem element_to_edge_error_after_write_witness:
  "element_to_edge (\<lambda>el e. (None, e))
        (NewickBrokerElement_ctor\<lparr>name := ''A'', tags := [''1'', ''2'']\<rparr>)
        \<lparr>edge_num = 5, placement_count = 0\<rparr>
      = (Some (InvalidArgument (ambiguous_tag_message ''A'')), \<lparr>edge_num = - 1, placement_count = 0\<rparr>)
   \<and> edge_num (snd (element_to_edge (\<lambda>el e. (None, e)) NewickBrokerElement_ctor
        \<lparr>edge_num = 5, placement_count = 0\<rparr>)) = - 1
   \<and> snd (element_to_edge (\<lambda>el e. (None, e)) NewickBrokerElement_ctor
        \<lparr>edge_num = 5, placement_count = 0\<rparr>) \<noteq> \<lparr>edge_num = 5, placement_count = 0\<rparr>"
proof -
  have "element_to_edge (\<lambda>el e. (None, e))
        (NewickBrokerElement_ctor\<lparr>name := ''A'', tags := [''1'', ''2'']\<rparr>)
        \<lparr>edge_num = 5, placement_count = 0\<rparr>
      = (Some (InvalidArgument (ambiguous_tag_message ''A'')), \<lparr>edge_num = - 1, placement_count = 0\<rparr>)"
    by (simp add: element_to_edge_def)
  then show ?thesis
    using element_to_edge_error_after_write
      [of "\<lambda>el e. (None, e)" NewickBrokerElement_ctor
          "\<lparr>edge_num = 5, placement_count = 0\<rparr>" "\<lparr>edge_num = 5, placement_count = 0\<rparr>"]
    by (simp add: NewickBrokerElement_ctor_def)
qed

section \<open>Validation of the input of the mass tree k-means\<close>

lemma check_data_types_None: "check_data_types tdi data = None \<longleftrightarrow> (\<forall>tree \<in> set data. tdi tree)"
  by (induction data) auto

lemma check_data_types_Some:
  "check_data_types tdi data \<noteq> None \<Longrightarrow>
   check_data_types tdi data = Some (InvalidArgument ''Trees for Kmeans do not have MassTree data types.'')"
  by (induction data) (auto split: if_splits)

lemma check_topologies_None: "check_topologies it data = None \<longleftrightarrow> successively it data"
  by (induction it data rule: check_topologies.induct) auto

lemma check_topologies_Some:
  "check_topologies it data \<noteq> None \<Longrightarrow>
   check_topologies it data = Some (InvalidArgument ''Trees for Kmeans do not have identical topologies.'')"
  by (induction it data rule: check_topologies.induct) (auto split: if_splits)

lemma successively_all_pairs:
  assumes "symp it" "transp it"
  shows "successively it data \<longleftrightarrow>
         (\<forall>i j. i < length data \<and> j < length data \<and> i \<noteq> j \<longrightarrow> it (data ! i) (data ! j))"
proof
  assume "successively it data"
  then have s: "sorted_wrt it data" using assms(2) by (simp add: successively_conv_sorted_wrt)
  show "\<forall>i j. i < length data \<and> j < length data \<and> i \<noteq> j \<longrightarrow> it (data ! i) (data ! j)"
  proof (intro allI impI)
    fix i j assume a: "i < length data \<and> j < length data \<and> i \<noteq> j"
    show "it (data ! i) (data ! j)"
    proof (cases "i < j")
      case True
      then show ?thesis using s a by (simp add: sorted_wrt_iff_nth_less)
    next
      case False
      then have "j < i" using a by simp
      then have "it (data ! j) (data ! i)" using s a by (simp add: sorted_wrt_iff_nth_less)
      then show ?thesis using assms(1) by (simp add: sympD)
    qed
  qed
next
  assume a: "\<forall>i j. i < length data \<and> j < length data \<and> i \<noteq> j \<longrightarrow> it (data ! i) (data ! j)"
  have "sorted_wrt it data"
    unfolding sorted_wrt_iff_nth_less using a by auto
  then show "successively it data" by (rule successively_if_sorted_wrt)
qed

text \<open>
  Claim C4.  \<open>data_validation\<close> is a function of the vector of trees alone and yields either
  an error or \<open>true\<close>; it calls no distance function and writes nothing.  When some tree has
  not the mass tree data types it raises the invalid-argument error; when all have them and
  some two trees of the vector do not have identical topologies it raises the
  invalid-argument error as well; otherwise it returns \<open>true\<close>.  The code compares each tree
  with its predecessor only, which decides every pair because having identical topologies
  is symmetric and transitive.
\<close>

theorem data_validation_rejects:
  assumes "symp identical_topology" and "transp identical_topology"
  shows "((\<exists>tree \<in> set data. \<not> tree_data_is tree) \<longrightarrow>
            data_validation tree_data_is identical_topology data
            = Inl (InvalidArgument ''Trees for Kmeans do not have MassTree data types.''))
       \<and> ((\<forall>tree \<in> set data. tree_data_is tree)
          \<and> (\<exists>i j. i < length data \<and> j < length data \<and> i \<noteq> j
                    \<and> \<not> identical_topology (data ! i) (data ! j)) \<longrightarrow>
            data_validation tree_data_is identical_topology data
            = Inl (InvalidArgument ''Trees for Kmeans do not have identical topologies.''))
       \<and> ((\<exists>i j. i < length data \<and> j < length data \<and> i \<noteq> j
                    \<and> \<not> identical_topology (data ! i) (data ! j)) \<longrightarrow>
            (\<exists>msg. data_validation tree_data_is identical_topology data
                   = Inl (InvalidArgument msg)))
       \<and> ((\<forall>tree \<in> set data. tree_data_is tree)
          \<and> (\<forall>i j. i < length data \<and> j < length data \<and> i \<noteq> j
                    \<longrightarrow> identical_topology (data ! i) (data ! j)) \<longrightarrow>
            data_validation tree_data_is identical_topology data = Inr True)"
proof -
  have types: "check_data_types tree_data_is data = None \<longleftrightarrow> (\<forall>tree \<in> set data. tree_data_is tree)"
    by (rule check_data_types_None)
  have topo: "check_topologies identical_topology data = None \<longleftrightarrow>
      (\<forall>i j. i < length data \<and> j < length data \<and> i \<noteq> j
                    \<longrightarrow> identical_topology (data ! i) (data ! j))"
    using successively_all_pairs [OF assms] by (simp add: check_topologies_None)
  have 1: "(\<exists>tree \<in> set data. \<not> tree_data_is tree) \<longrightarrow>
            data_validation tree_data_is identical_topology data
            = Inl (InvalidArgument ''Trees for Kmeans do not have MassTree data types.'')"
    using types check_data_types_Some [of tree_data_is data]
    by (auto simp: data_validation_def split: option.splits)
  have 2: "(\<forall>tree \<in> set data. tree_data_is tree)
          \<and> (\<exists>i j. i < length data \<and> j < length data \<and> i \<noteq> j
                    \<and> \<not> identical_topology (data ! i) (data ! j)) \<longrightarrow>
            data_validation tree_data_is identical_topology data
            = Inl (InvalidArgument ''Trees for Kmeans do not have identical topologies.'')"
  proof
    assume a: "(\<forall>tree \<in> set data. tree_data_is tree)
          \<and> (\<exists>i j. i < length data \<and> j < length data \<and> i \<noteq> j
                    \<and> \<not> identical_topology (data ! i) (data ! j))"
    then have "check_topologies identical_topology data \<noteq> None" using topo by blast
    then have "check_topologies identical_topology data
       = Some (InvalidArgument ''Trees for Kmeans do not have identical topologies.'')"
      by (rule check_topologies_Some)
    moreover have "check_data_types tree_data_is data = None" using a types by blast
    ultimately show "data_validation tree_data_is identical_topology data
            = Inl (InvalidArgument ''Trees for Kmeans do not have identical topologies.'')"
      by (simp add: data_validation_def)
  qed
  have 3: "(\<forall>tree \<in> set data. tree_data_is tree)
          \<and> (\<forall>i j. i < length data \<and> j < length data \<and> i \<noteq> j
                    \<longrightarrow> identical_topology (data ! i) (data ! j)) \<longrightarrow>
            data_validation tree_data_is identical_topology data = Inr True"
    using types topo by (auto simp add: data_validation_def split: option.splits)
  have 4: "(\<exists>i j. i < length data \<and> j < length data \<and> i \<noteq> j
                    \<and> \<not> identical_topology (data ! i) (data ! j)) \<longrightarrow>
            (\<exists>msg. data_validation tree_data_is identical_topology data
                   = Inl (InvalidArgument msg))"
    using 1 2 by blast
  show ?thesis using 1 2 3 4 by (intro conjI)
qed

theorem data_validation_rejects_witness:
  "data_validation (\<lambda>t. t < 10) (\<lambda>s t. s mod 2 = t mod 2) [1, 3, 12, 5 :: nat]
     = Inl (InvalidArgument ''Trees for Kmeans do not have MassTree data types.'')
   \<and> data_validation (\<lambda>t. t < 10) (\<lambda>s t. s mod 2 = t mod 2) [1, 3, 5, 4 :: nat]
     = Inl (InvalidArgument ''Trees for Kmeans do not have identical topologies.'')
   \<and> data_validation (\<lambda>t. t < 10) (\<lambda>s t. s mod 2 = t mod 2) [1, 3, 5, 7 :: nat] = Inr True"
proof -
  have sy: "symp (\<lambda>s t :: nat. s mod 2 = t mod 2)" by (simp add: symp_def)
  have tr: "transp (\<lambda>s t :: nat. s mod 2 = t mod 2)" by (simp add: transp_def)
  have a: "\<exists>tree \<in> set [1, 3, 12, 5 :: nat]. \<not> tree < 10" by simp
  have b: "\<exists>i j. i < length [1, 3, 5, 4 :: nat] \<and> j < length [1, 3, 5, 4 :: nat] \<and> i \<noteq> j
                    \<and> \<not> ([1, 3, 5, 4 :: nat] ! i) mod 2 = ([1, 3, 5, 4 :: nat] ! j) mod 2"
    by (rule exI [of _ 0], rule exI [of _ 3]) simp
  have c: "\<forall>tree \<in> set [1, 3, 5, 4 :: nat]. tree < 10" by simp
  show ?thesis
    using data_validation_rejects [OF sy tr, of "[1, 3, 12, 5]" "\<lambda>t. t < 10"] a
          data_validation_rejects [OF sy tr, of "[1, 3, 5, 4]" "\<lambda>t. t < 10"] b c
    by (simp add: data_validation_def)
qed

section \<open>The centroid update of the mass tree k-means\<close>

lemma assigned_to_Cons:
  "assigned_to (datum # data) (a # assignments) i
   = (if a = i then datum # assigned_to data assignments i else assigned_to data assignments i)"
  by (simp add: assigned_to_def)

lemma assigned_to_Nil: "assigned_to [] [] i = []"
  by (simp add: assigned_to_def)

lemma accumulate_result:
  assumes "length data = length assignments" and "length counts = length cs"
  shows "accumulate f data assignments (cs, counts)
         = (if \<forall>a \<in> set assignments. a < length cs
            then Inr (map (\<lambda>i. foldl (mass_tree_merge_trees_inplace f) (cs ! i)
                                  (assigned_to data assignments i)) [0..<length cs],
                      map (\<lambda>i. counts ! i + length (assigned_to data assignments i)) [0..<length cs])
            else Inl AssertionFailed)"
  using assms
proof (induction data assignments arbitrary: cs counts rule: list_induct2)
  case Nil
  then show ?case using map_nth [of counts] map_nth [of cs] by (simp add: assigned_to_Nil)
next
  case (Cons datum data a assignments)
  show ?case
  proof (cases "a < length cs")
    case False
    then show ?thesis by simp
  next
    case True
    let ?cs = "cs[a := mass_tree_merge_trees_inplace f (cs ! a) datum]"
    let ?counts = "counts[a := counts ! a + 1]"
    have len: "length ?counts = length ?cs" using Cons.prems by simp
    have ih: "accumulate f data assignments (?cs, ?counts)
         = (if \<forall>a \<in> set assignments. a < length ?cs
            then Inr (map (\<lambda>i. foldl (mass_tree_merge_trees_inplace f) (?cs ! i)
                                  (assigned_to data assignments i)) [0..<length ?cs],
                      map (\<lambda>i. ?counts ! i + length (assigned_to data assignments i)) [0..<length ?cs])
            else Inl AssertionFailed)"
      by (rule Cons.IH [OF len])
    have m1: "map (\<lambda>i. foldl (mass_tree_merge_trees_inplace f) (?cs ! i)
                                  (assigned_to data assignments i)) [0..<length cs]
            = map (\<lambda>i. foldl (mass_tree_merge_trees_inplace f) (cs ! i)
                                  (assigned_to (datum # data) (a # assignments) i)) [0..<length cs]"
      by (rule map_cong) (auto simp: assigned_to_Cons nth_list_update)
    have m2: "map (\<lambda>i. ?counts ! i + length (assigned_to data assignments i)) [0..<length cs]
            = map (\<lambda>i. counts ! i + length (assigned_to (datum # data) (a # assignments) i)) [0..<length cs]"
      using Cons.prems by (intro map_cong) (auto simp: assigned_to_Cons nth_list_update)
    show ?thesis using True ih m1 m2 by simp
  qed
qed

lemma normalize_centroids_result:
  assumes "length cs = length counts"
  shows "normalize_centroids f cs counts
         = (if \<forall>i < length cs. almost_equal_relative f (real (counts ! i))
                                 (mass_tree_sum_of_masses f (cs ! i)) 0.00001
            then Inr (map (mass_tree_normalize_masses f) cs)
            else Inl AssertionFailed)"
  using assms
proof (induction cs counts rule: list_induct2)
  case Nil
  then show ?case by simp
next
  case (Cons c cs n counts)
  then show ?case by (simp add: All_less_Suc2)
qed

text \<open>
  Claim C5.  \<open>update_centroids\<close> clears every centroid, merges each datum into the centroid
  it is assigned to and then, centroid by centroid, asserts that the number of data
  assigned to it is almost equal (relative tolerance \<open>0.00001\<close>) to the sum of the masses it
  has accumulated, and normalizes it.  So the function returns exactly when its assertions
  hold (equal lengths, assignments that are centroid indices, and for every centroid the
  count of its data almost equal to its accumulated mass), and then returns, for every
  centroid, the normalized accumulation of its data; in every other case an assertion fails.
\<close>

theorem update_centroids_counts_match_masses:
  "update_centroids f data assignments centroids =
     (if length data = length assignments
         \<and> (\<forall>a \<in> set assignments. a < length centroids)
         \<and> (\<forall>i < length centroids.
               almost_equal_relative f
                 (real (length (assigned_to data assignments i)))
                 (mass_tree_sum_of_masses f (accumulated f data assignments (centroids ! i) i))
                 0.00001)
      then Inr (map (\<lambda>i. mass_tree_normalize_masses f
                            (accumulated f data assignments (centroids ! i) i))
                  [0..<length centroids])
      else Inl AssertionFailed)"
proof (cases "length data = length assignments")
  case False
  then show ?thesis by (simp add: update_centroids_def)
next
  case True
  define cleared where "cleared = map (mass_tree_clear_masses f) centroids"
  define merged where "merged = map (\<lambda>i. foldl (mass_tree_merge_trees_inplace f) (cleared ! i)
                           (assigned_to data assignments i)) [0..<length cleared]"
  define counts where "counts = map (\<lambda>i. replicate (length cleared) (0::nat) ! i
                           + length (assigned_to data assignments i)) [0..<length cleared]"
  have len: "length cleared = length centroids" "length merged = length centroids"
    "length counts = length centroids"
    by (simp_all add: cleared_def merged_def counts_def)
  have merged_nth: "merged ! i = accumulated f data assignments (centroids ! i) i"
    if "i < length centroids" for i
    using that by (simp add: merged_def cleared_def accumulated_def)
  have counts_nth: "counts ! i = length (assigned_to data assignments i)"
    if "i < length centroids" for i
    using that by (simp add: counts_def cleared_def)
  have acc: "accumulate f data assignments (cleared, replicate (length cleared) 0)
       = (if \<forall>a \<in> set assignments. a < length cleared then Inr (merged, counts)
          else Inl AssertionFailed)"
    unfolding merged_def counts_def by (rule accumulate_result [OF True]) simp
  have norm: "normalize_centroids f merged counts
       = (if \<forall>i < length merged. almost_equal_relative f (real (counts ! i))
                                 (mass_tree_sum_of_masses f (merged ! i)) 0.00001
            then Inr (map (mass_tree_normalize_masses f) merged)
            else Inl AssertionFailed)"
    by (rule normalize_centroids_result) (simp add: len)
  have upd: "update_centroids f data assignments centroids
       = (case accumulate f data assignments (cleared, replicate (length cleared) 0) of
              Inl err \<Rightarrow> Inl err
            | Inr (merged, counts) \<Rightarrow> normalize_centroids f merged counts)"
    using True by (simp add: update_centroids_def cleared_def Let_def)
  have cond: "(\<forall>i < length merged. almost_equal_relative f (real (counts ! i))
                                 (mass_tree_sum_of_masses f (merged ! i)) 0.00001)
         \<longleftrightarrow> (\<forall>i < length centroids.
               almost_equal_relative f
                 (real (length (assigned_to data assignments i)))
                 (mass_tree_sum_of_masses f (accumulated f data assignments (centroids ! i) i))
                 0.00001)"
    using merged_nth counts_nth by (simp add: len)
  have res: "map (mass_tree_normalize_masses f) merged
         = map (\<lambda>i. mass_tree_normalize_masses f
                            (accumulated f data assignments (centroids ! i) i))
                  [0..<length centroids]"
    by (rule nth_equalityI) (simp_all add: len merged_nth)
  have step: "update_centroids f data assignments centroids
       = (if \<forall>a \<in> set assignments. a < length cleared
          then normalize_centroids f merged counts else Inl AssertionFailed)"
    unfolding upd acc by simp
  show ?thesis
    unfolding step norm cond res using True by (simp add: len)
qed

theorem update_centroids_counts_match_masses_witness:
  "update_centroids list_mass_functions [[1/2, 1/2], [1, 0], [0, 1]] [0, 1, 0] [[9, 9], [9, 9]]
     = Inr [[1/4, 3/4], [1, 0]]
   \<and> update_centroids list_mass_functions [[2, 0]] [0] [[9, 9]] = Inl AssertionFailed"
proof -
  have u: "[0..<2] = [0, 1]" "[0..<1] = [0]" by (simp_all add: upt_rec)
  have l: "\<And>P. (\<forall>i<2::nat. P i) = (P 0 \<and> P 1)" "\<And>P. (\<forall>i<1::nat. P i) = P 0"
    by (auto simp: less_2_cases_iff)
  show ?thesis
    using update_centroids_counts_match_masses
            [of list_mass_functions "[[1/2, 1/2], [1, 0], [0, 1]]" "[0, 1, 0]" "[[9, 9], [9, 9]]"]
          update_centroids_counts_match_masses
            [of list_mass_functions "[[2, 0]]" "[0]" "[[9, 9]]"]
    by (simp add: u l list_mass_functions_def accumulated_def assigned_to_def)
qed

section \<open>The digit loops of the integer parsers\<close>

lemma isdigit_not_newline: "isdigit c \<Longrightarrow> c \<noteq> CHR 0x0A"
  unfolding isdigit_def by auto

lemma advance_digit:
  assumes "remaining source = c # rest" "c \<noteq> CHR 0x0A"
  shows "advance source = source\<lparr>remaining := rest, column := column source + 1\<rparr>"
  using assms by (simp add: advance_def)

lemma digits_value_foldl:
  "foldl (\<lambda>x c. 10 * x + digit_val c) a ds = a * 10 ^ length ds + digits_value ds"
  unfolding digits_value_def
proof (induction ds arbitrary: a)
  case Nil
  then show ?case by simp
next
  case (Cons c ds)
  have "foldl (\<lambda>x c. 10 * x + digit_val c) (10 * a + digit_val c) ds
        = (10 * a + digit_val c) * 10 ^ length ds + foldl (\<lambda>x c. 10 * x + digit_val c) 0 ds"
    by (rule Cons.IH)
  moreover have "foldl (\<lambda>x c. 10 * x + digit_val c) (digit_val c) ds
        = digit_val c * 10 ^ length ds + foldl (\<lambda>x c. 10 * x + digit_val c) 0 ds"
    by (rule Cons.IH)
  ultimately show ?case by (simp add: algebra_simps)
qed

lemma digits_value_Cons:
  "digits_value (c # ds) = digit_val c * 10 ^ length ds + digits_value ds"
  using digits_value_foldl [of "digit_val c" ds] by (simp add: digits_value_def)

lemma unsigned_loop_eq:
  assumes "0 \<le> x" and "x \<le> maxv"
  shows "unsigned_loop maxv x source =
     (if maxv < x * 10 ^ length (takeWhile isdigit (remaining source))
                + int (digits_value (takeWhile isdigit (remaining source)))
      then Inl OverflowError
      else Inr (x * 10 ^ length (takeWhile isdigit (remaining source))
                  + int (digits_value (takeWhile isdigit (remaining source))),
                source\<lparr>remaining := dropWhile isdigit (remaining source),
                        column := column source + length (takeWhile isdigit (remaining source))\<rparr>))"
  using assms
proof (induction maxv x source rule: unsigned_loop.induct)
  case (1 maxv x source)
  show ?case
  proof (cases "good source \<and> isdigit (current source)")
    case False
    then have "takeWhile isdigit (remaining source) = []"
      "dropWhile isdigit (remaining source) = remaining source"
      by (cases "remaining source"; simp add: good_def current_def)+
    then show ?thesis using False "1.prems"
      by (subst unsigned_loop.simps) (auto simp add: digits_value_def)
  next
    case True
    then obtain c rest where r: "remaining source = c # rest" and c: "isdigit c"
      by (cases "remaining source") (auto simp: good_def current_def)
    define y where "y = int (digit_val c)"
    define n where "n = length (takeWhile isdigit rest)"
    define d where "d = int (digits_value (takeWhile isdigit rest))"
    have adv: "advance source = source\<lparr>remaining := rest, column := column source + 1\<rparr>"
      using r isdigit_not_newline [OF c] by (rule advance_digit)
    have y0: "0 \<le> y" "0 \<le> d" by (simp_all add: y_def d_def)
    have x': "0 \<le> 10 * x + y" using "1.prems" y0 by simp
    have tw: "takeWhile isdigit (remaining source) = c # takeWhile isdigit rest"
      "dropWhile isdigit (remaining source) = dropWhile isdigit rest"
      using r c by simp_all
    have val: "x * 10 ^ length (takeWhile isdigit (remaining source))
                + int (digits_value (takeWhile isdigit (remaining source)))
               = (10 * x + y) * 10 ^ n + d"
      by (simp add: tw digits_value_Cons y_def n_def d_def algebra_simps)
    have mono: "10 * x + y \<le> (10 * x + y) * 10 ^ n + d"
    proof -
      have "(10 * x + y) * 1 \<le> (10 * x + y) * 10 ^ n"
        using x' by (intro mult_left_mono) simp_all
      then show ?thesis using y0 by simp
    qed
    have lhs: "unsigned_loop maxv x source
         = (if maxv < 10 * x + y then Inl OverflowError
            else unsigned_loop maxv (10 * x + y) (advance source))"
      using True r by (subst unsigned_loop.simps) (simp add: current_def y_def)
    have len: "column source + length (takeWhile isdigit (remaining source))
               = column source + 1 + n"
      by (simp add: tw n_def)
    show ?thesis
    proof (cases "maxv < 10 * x + y")
      case over: True
      then have "maxv < (10 * x + y) * 10 ^ n + d" using mono by simp
      then show ?thesis
        unfolding lhs val using over by simp
    next
      case False
      have ih: "unsigned_loop maxv (10 * x + y) (advance source) =
        (if maxv < (10 * x + y) * 10 ^ n + d then Inl OverflowError
         else Inr ((10 * x + y) * 10 ^ n + d,
                source\<lparr>remaining := dropWhile isdigit rest,
                        column := column source + 1 + n\<rparr>))"
        using "1.IH" [OF True _ _ x'] False r
        by (simp add: current_def y_def adv n_def d_def)
      show ?thesis
        unfolding lhs ih by (simp only: val len tw(2)) (use False in simp)
    qed
  qed
qed


lemma negative_loop_eq:
  assumes "x \<le> 0" and "minv \<le> x"
  shows "negative_loop minv x source =
     (if x * 10 ^ length (takeWhile isdigit (remaining source))
                - int (digits_value (takeWhile isdigit (remaining source))) < minv
      then Inl UnderflowError
      else Inr (x * 10 ^ length (takeWhile isdigit (remaining source))
                  - int (digits_value (takeWhile isdigit (remaining source))),
                source\<lparr>remaining := dropWhile isdigit (remaining source),
                        column := column source + length (takeWhile isdigit (remaining source))\<rparr>))"
  using assms
proof (induction minv x source rule: negative_loop.induct)
  case (1 minv x source)
  show ?case
  proof (cases "good source \<and> isdigit (current source)")
    case False
    then have "takeWhile isdigit (remaining source) = []"
      "dropWhile isdigit (remaining source) = remaining source"
      by (cases "remaining source"; simp add: good_def current_def)+
    then show ?thesis using False "1.prems"
      by (subst negative_loop.simps) (auto simp add: digits_value_def)
  next
    case True
    then obtain c rest where r: "remaining source = c # rest" and c: "isdigit c"
      by (cases "remaining source") (auto simp: good_def current_def)
    define y where "y = int (digit_val c)"
    define n where "n = length (takeWhile isdigit rest)"
    define d where "d = int (digits_value (takeWhile isdigit rest))"
    have adv: "advance source = source\<lparr>remaining := rest, column := column source + 1\<rparr>"
      using r isdigit_not_newline [OF c] by (rule advance_digit)
    have y0: "0 \<le> y" "0 \<le> d" by (simp_all add: y_def d_def)
    have x': "10 * x - y \<le> 0" using "1.prems" y0 by simp
    have tw: "takeWhile isdigit (remaining source) = c # takeWhile isdigit rest"
      "dropWhile isdigit (remaining source) = dropWhile isdigit rest"
      using r c by simp_all
    have val: "x * 10 ^ length (takeWhile isdigit (remaining source))
                - int (digits_value (takeWhile isdigit (remaining source)))
               = (10 * x - y) * 10 ^ n - d"
      by (simp add: tw digits_value_Cons y_def n_def d_def algebra_simps)
    have mono: "(10 * x - y) * 10 ^ n - d \<le> 10 * x - y"
    proof -
      have "(y - 10 * x) * 1 \<le> (y - 10 * x) * 10 ^ n"
        using x' by (intro mult_left_mono) simp_all
      then show ?thesis using y0 by (simp add: algebra_simps)
    qed
    have lhs: "negative_loop minv x source
         = (if 10 * x - y < minv then Inl UnderflowError
            else negative_loop minv (10 * x - y) (advance source))"
      using True r by (subst negative_loop.simps) (simp add: current_def y_def)
    have len: "column source + length (takeWhile isdigit (remaining source))
               = column source + 1 + n"
      by (simp add: tw n_def)
    show ?thesis
    proof (cases "10 * x - y < minv")
      case under: True
      then have "(10 * x - y) * 10 ^ n - d < minv" using mono by simp
      then show ?thesis
        unfolding lhs val using under by simp
    next
      case False
      then have ge: "minv \<le> 10 * x - y" by simp
      have ih: "negative_loop minv (10 * x - y) (advance source) =
        (if (10 * x - y) * 10 ^ n - d < minv then Inl UnderflowError
         else Inr ((10 * x - y) * 10 ^ n - d,
                source\<lparr>remaining := dropWhile isdigit rest,
                        column := column source + 1 + n\<rparr>))"
        using "1.IH" [OF True _ _ x' ge] False r
        by (simp add: current_def y_def adv n_def d_def)
      show ?thesis
        unfolding lhs ih by (simp only: val len tw(2)) (use False in simp)
    qed
  qed
qed

lemma parse_unsigned_integer_eq:
  assumes "0 \<le> maxv"
  shows "parse_unsigned_integer maxv source =
     (if maxv < int (digits_value (takeWhile isdigit (remaining source)))
      then Inl OverflowError
      else Inr (int (digits_value (takeWhile isdigit (remaining source))),
                source\<lparr>remaining := dropWhile isdigit (remaining source),
                        column := column source + length (takeWhile isdigit (remaining source))\<rparr>))"
  using unsigned_loop_eq [of 0 maxv source] assms by (simp add: parse_unsigned_integer_def)

lemma negative_loop_zero:
  assumes "minv \<le> 0"
  shows "negative_loop minv 0 source =
     (if - int (digits_value (takeWhile isdigit (remaining source))) < minv
      then Inl UnderflowError
      else Inr (- int (digits_value (takeWhile isdigit (remaining source))),
                source\<lparr>remaining := dropWhile isdigit (remaining source),
                        column := column source + length (takeWhile isdigit (remaining source))\<rparr>))"
  using negative_loop_eq [of 0 minv source] assms by simp

lemma takeWhile_longest:
  assumes "n \<le> length xs" and "\<forall>c \<in> set (take n xs). P c"
  shows "n \<le> length (takeWhile P xs)"
proof (rule ccontr)
  assume "\<not> n \<le> length (takeWhile P xs)"
  then have lt: "length (takeWhile P xs) < n" by simp
  then have "length (takeWhile P xs) < length xs" using assms(1) by simp
  then have "\<not> P (xs ! length (takeWhile P xs))" by (rule nth_length_takeWhile)
  moreover have "xs ! length (takeWhile P xs) \<in> set (take n xs)"
    using lt assms(1) by (metis in_set_conv_nth length_take min.absorb2 nth_take)
  ultimately show False using assms(2) by blast
qed


lemma InputStream_ctor_fields:
  "remaining (InputStream_ctor str) = str"
  "line (InputStream_ctor str) = (if str = [] then 0 else 1)"
  "column (InputStream_ctor str) = (if str = [] then 0 else 1)"
  by (simp_all add: InputStream_ctor_def)

lemma parse_unsigned_integer_ctor:
  assumes "0 \<le> maxv"
  shows "parse_unsigned_integer maxv (InputStream_ctor str) =
      (if maxv < int (digits_value (leading_digits str)) then Inl OverflowError
       else Inr (int (digits_value (leading_digits str)),
                 \<lparr>remaining = drop (length (leading_digits str)) str,
                  line = (if str = [] then 0 else 1),
                  column = (if str = [] then 0 else 1 + length (leading_digits str))\<rparr>))"
proof -
  have "(InputStream_ctor str)\<lparr>remaining := dropWhile isdigit str,
            column := column (InputStream_ctor str) + length (takeWhile isdigit str)\<rparr>
        = \<lparr>remaining = drop (length (leading_digits str)) str,
                  line = (if str = [] then 0 else 1),
                  column = (if str = [] then 0 else 1 + length (leading_digits str))\<rparr>"
    by (simp add: InputStream_ctor_def leading_digits_def dropWhile_eq_drop)
  then show ?thesis
    using parse_unsigned_integer_eq [OF assms, of "InputStream_ctor str"]
    by (simp add: InputStream_ctor_fields leading_digits_def)
qed

lemma parse_signed_integer_ctor:
  assumes "0 \<le> maxv" and "minv \<le> 0"
  shows "parse_signed_integer minv maxv (InputStream_ctor str) =
      (if leading_sign str = ''-''
       then (if - int (digits_value (leading_digits (drop (length (leading_sign str)) str))) < minv
             then Inl UnderflowError
             else Inr (- int (digits_value (leading_digits (drop (length (leading_sign str)) str))),
                 \<lparr>remaining = drop (length (leading_sign str)
                                      + length (leading_digits (drop (length (leading_sign str)) str))) str,
                  line = (if str = [] then 0 else 1),
                  column = (if str = [] then 0
                            else 1 + (length (leading_sign str)
                                      + length (leading_digits (drop (length (leading_sign str)) str))))\<rparr>))
       else (if maxv < int (digits_value (leading_digits (drop (length (leading_sign str)) str)))
             then Inl OverflowError
             else Inr (int (digits_value (leading_digits (drop (length (leading_sign str)) str))),
                 \<lparr>remaining = drop (length (leading_sign str)
                                      + length (leading_digits (drop (length (leading_sign str)) str))) str,
                  line = (if str = [] then 0 else 1),
                  column = (if str = [] then 0
                            else 1 + (length (leading_sign str)
                                      + length (leading_digits (drop (length (leading_sign str)) str))))\<rparr>)))"
proof (cases str)
  case Nil
  then show ?thesis
    using assms
    by (simp add: parse_signed_integer_def good_def InputStream_ctor_def leading_sign_def
        leading_digits_def digits_value_def)
next
  case (Cons c rest)
  let ?s = "InputStream_ctor str"
  have s: "?s = \<lparr>remaining = c # rest, line = 1, column = 1\<rparr>"
    using Cons by (simp add: InputStream_ctor_def)
  show ?thesis
  proof (cases "c = CHR ''-'' \<or> c = CHR ''+''")
    case True
    have adv: "advance ?s = \<lparr>remaining = rest, line = 1, column = 2\<rparr>"
      using True by (auto simp: s advance_def)
    have sg: "leading_sign str = [c]" using True Cons by (simp add: leading_sign_def)
    have dr: "dropWhile isdigit rest = drop (length (leading_digits rest)) rest"
      by (simp add: leading_digits_def dropWhile_eq_drop)
    show ?thesis
    proof (cases "c = CHR ''-''")
      case minus: True
      have str: "str = CHR ''-'' # rest" using Cons minus by simp
      have ps: "parse_signed_integer minv maxv ?s
                = negative_loop minv 0 \<lparr>remaining = rest, line = 1, column = 2\<rparr>"
        by (simp add: parse_signed_integer_def good_def current_def str InputStream_ctor_def
            advance_def numeral_2_eq_2)
      have sg: "leading_sign str = ''-''" by (simp add: leading_sign_def str)
      show ?thesis
        unfolding ps negative_loop_zero [OF assms(2)] sg
        by (simp add: str dr leading_digits_def)
    next
      case False
      then have str: "str = CHR ''+'' # rest" using True Cons by simp
      have ps: "parse_signed_integer minv maxv ?s
                = parse_unsigned_integer maxv \<lparr>remaining = rest, line = 1, column = 2\<rparr>"
        by (simp add: parse_signed_integer_def good_def current_def str InputStream_ctor_def
            advance_def numeral_2_eq_2)
      have sg: "leading_sign str = ''+''" by (simp add: leading_sign_def str)
      show ?thesis
        unfolding ps parse_unsigned_integer_eq [OF assms(1)] sg
        by (simp add: str dr leading_digits_def)
    qed
  next
    case False
    have sg: "leading_sign str = []" using False Cons by (simp add: leading_sign_def)
    have ps: "parse_signed_integer minv maxv ?s = parse_unsigned_integer maxv ?s"
      using False by (simp add: parse_signed_integer_def good_def current_def s)
    show ?thesis
      unfolding ps parse_unsigned_integer_ctor [OF assms(1)] sg
      by simp
  qed
qed

section \<open>Integer literals: prefix, column and range\<close>

text \<open>
  Claim C7, as the tests have it.  On every input the unsigned parser reads the digits the
  input starts with and the signed parser a sign, if the input starts with one, and the
  digits after it; no longer run of digits starts the input.  If the number read fits
  the target type, the parser returns it, leaves the stream right after what it read, and
  the column is 1 plus the number of characters read when the input is not empty and 0
  when it is empty; with no digit the value is 0 and nothing but the sign is read.  If the
  number does not fit, the parser raises an overflow error (underflow after a minus sign).
\<close>

theorem integer_parsers_longest_prefix:
  assumes "0 \<le> maxv" and "minv \<le> 0"
  shows "parse_unsigned_integer maxv (InputStream_ctor str) =
      (if maxv < int (digits_value (leading_digits str)) then Inl OverflowError
       else Inr (int (digits_value (leading_digits str)),
                 \<lparr>remaining = drop (length (leading_digits str)) str,
                  line = (if str = [] then 0 else 1),
                  column = (if str = [] then 0 else 1 + length (leading_digits str))\<rparr>))
    \<and> parse_signed_integer minv maxv (InputStream_ctor str) =
      (if leading_sign str = ''-''
       then (if - int (digits_value (leading_digits (drop (length (leading_sign str)) str))) < minv
             then Inl UnderflowError
             else Inr (- int (digits_value (leading_digits (drop (length (leading_sign str)) str))),
                 \<lparr>remaining = drop (length (leading_sign str)
                                      + length (leading_digits (drop (length (leading_sign str)) str))) str,
                  line = (if str = [] then 0 else 1),
                  column = (if str = [] then 0
                            else 1 + (length (leading_sign str)
                                      + length (leading_digits (drop (length (leading_sign str)) str))))\<rparr>))
       else (if maxv < int (digits_value (leading_digits (drop (length (leading_sign str)) str)))
             then Inl OverflowError
             else Inr (int (digits_value (leading_digits (drop (length (leading_sign str)) str))),
                 \<lparr>remaining = drop (length (leading_sign str)
                                      + length (leading_digits (drop (length (leading_sign str)) str))) str,
                  line = (if str = [] then 0 else 1),
                  column = (if str = [] then 0
                            else 1 + (length (leading_sign str)
                                      + length (leading_digits (drop (length (leading_sign str)) str))))\<rparr>)))
    \<and> (\<forall>n \<le> length str. (\<forall>c \<in> set (take n str). isdigit c) \<longrightarrow> n \<le> length (leading_digits str))
    \<and> digits_value [] = 0"
proof -
  have longest: "\<forall>n \<le> length str. (\<forall>c \<in> set (take n str). isdigit c)
                   \<longrightarrow> n \<le> length (leading_digits str)"
    unfolding leading_digits_def using takeWhile_longest [of _ str isdigit] by blast
  have zero: "digits_value [] = 0" by (simp add: digits_value_def)
  show ?thesis
    using parse_unsigned_integer_ctor [OF assms(1), of str]
      parse_signed_integer_ctor [OF assms, of str] longest zero
    by (intro conjI)
qed

lemma leading_digits_eval:
  "leading_digits ''123 45'' = ''123''" "leading_sign ''+0'' = ''+''" "leading_digits ''0'' = ''0''"
  "digits_value ''123'' = 123" "digits_value ''0'' = 0"
  by (simp_all add: leading_digits_def leading_sign_def isdigit_def digits_value_def digit_val_def)

theorem integer_parsers_longest_prefix_witness:
  "parse_unsigned_integer UINT_MAX (InputStream_ctor ''123 45'')
     = Inr (123, \<lparr>remaining = '' 45'', line = 1, column = 4\<rparr>)
   \<and> parse_signed_integer INT_MIN INT_MAX (InputStream_ctor ''+0'')
     = Inr (0, \<lparr>remaining = [], line = 1, column = 3\<rparr>)"
proof -
  have b: "0 \<le> UINT_MAX" "0 \<le> INT_MAX" "INT_MIN \<le> 0"
    by (simp_all add: UINT_MAX_def INT_MAX_def INT_MIN_def)
  show ?thesis
    using integer_parsers_longest_prefix [OF b(1) b(3), of "''123 45''"]
          integer_parsers_longest_prefix [OF b(2) b(3), of "''+0''"]
    by (simp add: leading_digits_eval UINT_MAX_def INT_MAX_def INT_MIN_def)
qed

lemma digit_val_nonzero: "isdigit c \<Longrightarrow> c \<noteq> CHR ''0'' \<Longrightarrow> 1 \<le> digit_val c"
proof -
  assume a: "isdigit c" "c \<noteq> CHR ''0''"
  have "of_char c \<noteq> (48 :: nat)"
  proof
    assume "of_char c = (48 :: nat)"
    then have "(of_char c :: nat) = of_char CHR ''0''" by simp
    then have "c = CHR ''0''" by (simp only: of_char_eq_iff)
    then show False using a(2) by simp
  qed
  then show ?thesis using a(1) unfolding isdigit_def digit_val_def by arith
qed

lemma digits_value_lower:
  assumes "ds \<noteq> []" "isdigit (hd ds)" "hd ds \<noteq> CHR ''0''"
  shows "10 ^ (length ds - 1) \<le> digits_value ds"
proof -
  obtain c r where ds: "ds = c # r" using assms(1) by (cases ds) auto
  have "1 \<le> digit_val c" using assms ds digit_val_nonzero [of c] by simp
  then have "(10::nat) ^ length r \<le> digit_val c * 10 ^ length r"
    using mult_le_mono1 [of 1 "digit_val c" "10 ^ length r"] by simp
  then have "(10::nat) ^ length r \<le> digit_val c * 10 ^ length r + digits_value r"
    by (rule trans_le_add1)
  then show ?thesis by (simp add: ds digits_value_Cons)
qed

lemma leading_digits_all: "\<forall>c \<in> set ds. isdigit c \<Longrightarrow> leading_digits ds = ds"
  by (simp add: leading_digits_def)

lemma leading_sign_minus: "leading_sign (CHR ''-'' # ds) = ''-''"
  by (simp add: leading_sign_def)

lemma leading_sign_digit: "ds \<noteq> [] \<Longrightarrow> isdigit (hd ds) \<Longrightarrow> leading_sign ds = []"
  using isdigit_not_sign_space [of "hd ds"] by (simp add: leading_sign_def)

lemma thirty_one_digits:
  assumes "length ds = 31" "\<forall>c \<in> set ds. isdigit c" "hd ds \<noteq> CHR ''0''"
  shows "UINT_MAX < int (digits_value (leading_digits ds))"
    and "- int (digits_value (leading_digits ds)) < INT_MIN"
    and "leading_sign ds = []"
proof -
  have ne: "ds \<noteq> []" using assms(1) by auto
  then have hd: "isdigit (hd ds)" using assms(2) by simp
  have "(10::nat) ^ 30 \<le> digits_value ds"
    using digits_value_lower [OF ne hd assms(3)] assms(1) by simp
  then have "(10::int) ^ 30 \<le> int (digits_value ds)"
    by (metis of_nat_le_iff of_nat_numeral of_nat_power)
  then show "UINT_MAX < int (digits_value (leading_digits ds))"
    and "- int (digits_value (leading_digits ds)) < INT_MIN"
    by (simp_all add: leading_digits_all [OF assms(2)] UINT_MAX_def INT_MIN_def)
  show "leading_sign ds = []" using ne hd by (rule leading_sign_digit)
qed

lemma parse_signed_integer_stream_minus:
  assumes "minv \<le> 0" "remaining s = CHR ''-'' # ds"
  shows "parse_signed_integer minv maxv s =
     (if - int (digits_value (leading_digits ds)) < minv then Inl UnderflowError
      else Inr (- int (digits_value (leading_digits ds)),
                s\<lparr>remaining := drop (length (leading_digits ds)) ds,
                  column := column s + 1 + length (leading_digits ds)\<rparr>))"
proof -
  have adv: "advance s = s\<lparr>remaining := ds, column := column s + 1\<rparr>"
    using assms(2) by (simp add: advance_def)
  have "parse_signed_integer minv maxv s = negative_loop minv 0 (advance s)"
    using assms(2) by (simp add: parse_signed_integer_def good_def current_def)
  then show ?thesis
    unfolding negative_loop_zero [OF assms(1)] adv
    by (simp add: leading_digits_def dropWhile_eq_drop)
qed

lemma parse_signed_integer_stream_plus:
  assumes "0 \<le> maxv" "remaining s = CHR ''+'' # ds"
  shows "parse_signed_integer minv maxv s =
     (if maxv < int (digits_value (leading_digits ds)) then Inl OverflowError
      else Inr (int (digits_value (leading_digits ds)),
                s\<lparr>remaining := drop (length (leading_digits ds)) ds,
                  column := column s + 1 + length (leading_digits ds)\<rparr>))"
proof -
  have adv: "advance s = s\<lparr>remaining := ds, column := column s + 1\<rparr>"
    using assms(2) by (simp add: advance_def)
  have "parse_signed_integer minv maxv s = parse_unsigned_integer maxv (advance s)"
    using assms(2) by (simp add: parse_signed_integer_def good_def current_def)
  then show ?thesis
    unfolding parse_unsigned_integer_eq [OF assms(1)] adv
    by (simp add: leading_digits_def dropWhile_eq_drop)
qed

lemma parse_signed_integer_stream_plain:
  assumes "0 \<le> maxv" "remaining s = [] \<or> (hd (remaining s) \<noteq> CHR ''-'' \<and> hd (remaining s) \<noteq> CHR ''+'')"
  shows "parse_signed_integer minv maxv s =
     (if maxv < int (digits_value (leading_digits (remaining s))) then Inl OverflowError
      else Inr (int (digits_value (leading_digits (remaining s))),
                s\<lparr>remaining := drop (length (leading_digits (remaining s))) (remaining s),
                  column := column s + length (leading_digits (remaining s))\<rparr>))"
proof (cases "remaining s = []")
  case True
  then show ?thesis using assms(1)
    by (simp add: parse_signed_integer_def good_def leading_digits_def digits_value_def)
next
  case False
  then have "parse_signed_integer minv maxv s = parse_unsigned_integer maxv s"
    using assms(2) by (simp add: parse_signed_integer_def good_def current_def)
  then show ?thesis
    unfolding parse_unsigned_integer_eq [OF assms(1)]
    by (simp add: leading_digits_def dropWhile_eq_drop)
qed

lemma parse_float_exponent:
  assumes "good source" "parse_mantissa source = (is_neg, x, s3)"
    "remaining s3 = e # rest" "e = CHR ''e'' \<or> e = CHR ''E''"
  shows "parse_float source =
     (case parse_signed_integer INT_MIN INT_MAX (s3\<lparr>remaining := rest, column := column s3 + 1\<rparr>) of
        Inl err \<Rightarrow> Inl err
      | Inr (ex, s4) \<Rightarrow> Inr (if is_neg then - scale10 x ex else scale10 x ex, s4))"
proof -
  have adv: "advance s3 = s3\<lparr>remaining := rest, column := column s3 + 1\<rparr>"
    using assms(3,4) by (auto simp add: advance_def)
  have "good s3 \<and> (current s3 = CHR ''e'' \<or> current s3 = CHR ''E'')"
    using assms(3,4) by (auto simp: good_def current_def)
  then show ?thesis using assms(1,2) by (simp add: parse_float_def adv)
qed

text \<open>
  Claim C8.  A literal whose digits denote a number beyond the largest value of the target
  type raises an overflow error in the unsigned and in the signed parser; after a minus
  sign, a number below the smallest value raises an underflow error.  A literal of 31
  digits, the first one not zero, is beyond both \<^verbatim>\<open>unsigned int\<close> and \<^verbatim>\<open>int\<close>: it raises the
  overflow error, and its negation the underflow error.  In a float, an exponent that
  overflows \<^verbatim>\<open>int\<close> raises the overflow error and a negative exponent that underflows it
  raises the underflow error.  None of these results is a value: nothing saturates or wraps.
\<close>

theorem literals_beyond_range_raise:
  assumes "0 \<le> maxv" and "minv \<le> 0"
  shows "(maxv < int (digits_value (leading_digits str)) \<longrightarrow>
            parse_unsigned_integer maxv (InputStream_ctor str) = Inl OverflowError
          \<and> parse_signed_integer minv maxv (InputStream_ctor str) = Inl OverflowError)
       \<and> (- int (digits_value (leading_digits str)) < minv \<longrightarrow>
            parse_signed_integer minv maxv (InputStream_ctor (CHR ''-'' # str)) = Inl UnderflowError)
       \<and> (length str = 31 \<and> (\<forall>c \<in> set str. isdigit c) \<and> hd str \<noteq> CHR ''0'' \<longrightarrow>
            parse_unsigned_integer UINT_MAX (InputStream_ctor str) = Inl OverflowError
          \<and> parse_signed_integer INT_MIN INT_MAX (InputStream_ctor str) = Inl OverflowError
          \<and> parse_signed_integer INT_MIN INT_MAX (InputStream_ctor (CHR ''-'' # str))
              = Inl UnderflowError)
       \<and> (\<forall>source is_neg x s3 e.
            good source \<and> parse_mantissa source = (is_neg, x, s3)
            \<and> (e = CHR ''e'' \<or> e = CHR ''E'') \<longrightarrow>
              (remaining s3 = e # str \<and> INT_MAX < int (digits_value (leading_digits str))
                 \<longrightarrow> parse_float source = Inl OverflowError)
            \<and> (remaining s3 = e # CHR ''-'' # str
                 \<and> - int (digits_value (leading_digits str)) < INT_MIN
                 \<longrightarrow> parse_float source = Inl UnderflowError))"
proof -
  have nosign: "leading_sign s = []" if "m < int (digits_value (leading_digits s))" "0 \<le> m"
    for s and m :: int
  proof -
    have "leading_digits s \<noteq> []" using that by (auto simp: digits_value_def)
    then have "s \<noteq> []" "isdigit (hd s)"
      by (cases s; simp add: leading_digits_def split: if_splits)+
    then show ?thesis by (rule leading_sign_digit)
  qed
  have over: "maxv < int (digits_value (leading_digits str)) \<longrightarrow>
            parse_unsigned_integer maxv (InputStream_ctor str) = Inl OverflowError
          \<and> parse_signed_integer minv maxv (InputStream_ctor str) = Inl OverflowError"
    using nosign [of maxv str] assms(1)
    by (simp add: parse_unsigned_integer_ctor [OF assms(1)] parse_signed_integer_ctor [OF assms])
  have under: "- int (digits_value (leading_digits str)) < minv \<longrightarrow>
            parse_signed_integer minv maxv (InputStream_ctor (CHR ''-'' # str)) = Inl UnderflowError"
    by (simp add: parse_signed_integer_ctor [OF assms] leading_sign_minus)
  have b: "0 \<le> UINT_MAX" "0 \<le> INT_MAX" "INT_MIN \<le> 0"
    by (simp_all add: UINT_MAX_def INT_MAX_def INT_MIN_def)
  have digits31: "length str = 31 \<and> (\<forall>c \<in> set str. isdigit c) \<and> hd str \<noteq> CHR ''0'' \<longrightarrow>
            parse_unsigned_integer UINT_MAX (InputStream_ctor str) = Inl OverflowError
          \<and> parse_signed_integer INT_MIN INT_MAX (InputStream_ctor str) = Inl OverflowError
          \<and> parse_signed_integer INT_MIN INT_MAX (InputStream_ctor (CHR ''-'' # str))
              = Inl UnderflowError"
  proof
    assume a: "length str = 31 \<and> (\<forall>c \<in> set str. isdigit c) \<and> hd str \<noteq> CHR ''0''"
    then have t: "UINT_MAX < int (digits_value (leading_digits str))"
      "- int (digits_value (leading_digits str)) < INT_MIN" "leading_sign str = []"
      using thirty_one_digits [of str] by simp_all
    then have "INT_MAX < int (digits_value (leading_digits str))"
      by (simp add: UINT_MAX_def INT_MAX_def)
    then show "parse_unsigned_integer UINT_MAX (InputStream_ctor str) = Inl OverflowError
          \<and> parse_signed_integer INT_MIN INT_MAX (InputStream_ctor str) = Inl OverflowError
          \<and> parse_signed_integer INT_MIN INT_MAX (InputStream_ctor (CHR ''-'' # str))
              = Inl UnderflowError"
      using t
      by (simp add: parse_unsigned_integer_ctor [OF b(1)] parse_signed_integer_ctor [OF b(2,3)]
          leading_sign_minus)
  qed
  have float: "(remaining s3 = e # str \<and> INT_MAX < int (digits_value (leading_digits str))
                 \<longrightarrow> parse_float source = Inl OverflowError)
            \<and> (remaining s3 = e # CHR ''-'' # str
                 \<and> - int (digits_value (leading_digits str)) < INT_MIN
                 \<longrightarrow> parse_float source = Inl UnderflowError)"
    if h: "good source \<and> parse_mantissa source = (is_neg, x, s3)
            \<and> (e = CHR ''e'' \<or> e = CHR ''E'')"
    for source is_neg x s3 e
  proof (intro conjI impI)
    assume a: "remaining s3 = e # str \<and> INT_MAX < int (digits_value (leading_digits str))"
    then have ns: "leading_sign str = []" using nosign [of INT_MAX str] b(2) by simp
    have "str \<noteq> []" using a b(2) by (auto simp: leading_digits_def digits_value_def)
    then have hd: "hd str \<noteq> CHR ''-'' \<and> hd str \<noteq> CHR ''+''"
      using ns by (auto simp: leading_sign_def split: if_splits)
    have "parse_signed_integer INT_MIN INT_MAX (s3\<lparr>remaining := str, column := column s3 + 1\<rparr>)
          = Inl OverflowError"
      using a hd
      by (simp add: parse_signed_integer_stream_plain [OF b(2)])
    then show "parse_float source = Inl OverflowError"
      using h a parse_float_exponent [of source is_neg x s3 e str] by auto
  next
    assume a: "remaining s3 = e # CHR ''-'' # str
                 \<and> - int (digits_value (leading_digits str)) < INT_MIN"
    have "parse_signed_integer INT_MIN INT_MAX
            (s3\<lparr>remaining := CHR ''-'' # str, column := column s3 + 1\<rparr>)
          = Inl UnderflowError"
      using a by (simp add: parse_signed_integer_stream_minus [OF b(3)])
    then show "parse_float source = Inl UnderflowError"
      using h a parse_float_exponent [of source is_neg x s3 e "CHR ''-'' # str"] by auto
  qed
  show ?thesis
    using over under digits31 float by blast
qed

text \<open>
  Claim C1, as the tests have it.  When the mantissa of a float literal is followed by an
  exponent marker, an optional sign and then no digit, \<open>parse_float\<close> raises no error and
  returns the mantissa; the exponent marker and the sign after it are consumed, so that
  the stream is left at the first character after them.
\<close>

theorem malformed_exponent_returns_mantissa:
  assumes "good source" and "parse_mantissa source = (is_neg, x, s3)"
    and "remaining s3 = e # sg @ rest" and "e = CHR ''e'' \<or> e = CHR ''E''"
    and "sg = [] \<or> sg = ''+'' \<or> sg = ''-''"
    and "rest = [] \<or> \<not> isdigit (hd rest)"
    and "sg = [] \<longrightarrow> rest = [] \<or> (hd rest \<noteq> CHR ''-'' \<and> hd rest \<noteq> CHR ''+'')"
  shows "parse_float source
         = Inr (if is_neg then - x else x,
                s3\<lparr>remaining := rest, column := column s3 + 1 + length sg\<rparr>)"
proof -
  have b: "0 \<le> INT_MAX" "INT_MIN \<le> 0" by (simp_all add: INT_MAX_def INT_MIN_def)
  have nodigits: "leading_digits rest = []"
    using assms(6) by (cases rest) (auto simp: leading_digits_def)
  let ?s = "s3\<lparr>remaining := sg @ rest, column := column s3 + 1\<rparr>"
  have exp: "parse_signed_integer INT_MIN INT_MAX ?s
             = Inr (0, s3\<lparr>remaining := rest, column := column s3 + 1 + length sg\<rparr>)"
  proof -
    consider "sg = []" | "sg = ''+''" | "sg = ''-''" using assms(5) by blast
    then show ?thesis
    proof cases
      case 1
      then show ?thesis
        using assms(7) b nodigits parse_signed_integer_stream_plain [OF b(1), of ?s INT_MIN]
        by (simp add: digits_value_def)
    next
      case 2
      then show ?thesis
        using b nodigits parse_signed_integer_stream_plus [OF b(1), of ?s rest INT_MIN]
        by (simp add: digits_value_def)
    next
      case 3
      then show ?thesis
        using b nodigits parse_signed_integer_stream_minus [OF b(2), of ?s rest INT_MAX]
        by (simp add: digits_value_def)
    qed
  qed
  show ?thesis
    using parse_float_exponent [OF assms(1-4)] exp by (simp add: scale10_def)
qed

section \<open>The literals of the tests\<close>

lemma isdigit_simps:
  "isdigit CHR ''0''" "isdigit CHR ''1''" "isdigit CHR ''2''" "isdigit CHR ''3''" "isdigit CHR ''4''"
  "isdigit CHR ''5''" "isdigit CHR ''6''" "isdigit CHR ''7''" "isdigit CHR ''8''" "isdigit CHR ''9''"
  by (simp_all add: isdigit_def)

lemma digit_val_simps:
  "digit_val CHR ''0'' = 0" "digit_val CHR ''1'' = 1" "digit_val CHR ''2'' = 2"
  "digit_val CHR ''3'' = 3" "digit_val CHR ''4'' = 4" "digit_val CHR ''5'' = 5"
  "digit_val CHR ''6'' = 6" "digit_val CHR ''7'' = 7" "digit_val CHR ''8'' = 8"
  "digit_val CHR ''9'' = 9"
  by (simp_all add: digit_val_def)

lemma test_literal_value:
  "leading_digits ''123456789101121314151617181920'' = ''123456789101121314151617181920''"
  "int (digits_value ''123456789101121314151617181920'') = 123456789101121314151617181920"
  by (simp_all add: leading_digits_def digits_value_def isdigit_simps digit_val_simps)

text \<open>
  The claim as the specification words it fails on the empty input: nothing is consumed
  and the column is 0, not 1.  And on the digits of the tests' overflow literal there is
  no resulting column: the parser raises.
\<close>

theorem empty_input_column_counterexample:
  "parse_unsigned_integer UINT_MAX (InputStream_ctor [])
     = Inr (0, \<lparr>remaining = [], line = 0, column = 0\<rparr>)
   \<and> parse_signed_integer INT_MIN INT_MAX (InputStream_ctor [])
     = Inr (0, \<lparr>remaining = [], line = 0, column = 0\<rparr>)
   \<and> column (snd (projr (parse_unsigned_integer UINT_MAX (InputStream_ctor []))))
     \<noteq> 1 + (length ([] :: string)
            - length (remaining (snd (projr (parse_unsigned_integer UINT_MAX (InputStream_ctor []))))))
   \<and> column (snd (projr (parse_signed_integer INT_MIN INT_MAX (InputStream_ctor []))))
     \<noteq> 1 + (length ([] :: string)
            - length (remaining (snd (projr (parse_signed_integer INT_MIN INT_MAX (InputStream_ctor []))))))
   \<and> parse_unsigned_integer UINT_MAX (InputStream_ctor ''123456789101121314151617181920'')
     = Inl OverflowError"
proof -
  have u: "parse_unsigned_integer UINT_MAX (InputStream_ctor [])
     = Inr (0, \<lparr>remaining = [], line = 0, column = 0\<rparr>)"
    by (simp add: parse_unsigned_integer_def unsigned_loop.simps good_def InputStream_ctor_def)
  have s: "parse_signed_integer INT_MIN INT_MAX (InputStream_ctor [])
     = Inr (0, \<lparr>remaining = [], line = 0, column = 0\<rparr>)"
    by (simp add: parse_signed_integer_def good_def InputStream_ctor_def)
  have b: "0 \<le> UINT_MAX" by (simp add: UINT_MAX_def)
  have o: "parse_unsigned_integer UINT_MAX (InputStream_ctor ''123456789101121314151617181920'')
     = Inl OverflowError"
    unfolding parse_unsigned_integer_ctor [OF b] test_literal_value
    by (simp add: UINT_MAX_def)
  show ?thesis unfolding u s o by simp
qed

lemma float_test_mantissa:
  "good (InputStream_ctor ''1.0e123456789101121314151617181920'')"
  "parse_mantissa (InputStream_ctor ''1.0e123456789101121314151617181920'')
     = (False, 1, \<lparr>remaining = ''e123456789101121314151617181920'', line = 1, column = 4\<rparr>)"
  "good (InputStream_ctor ''1.0e-123456789101121314151617181920'')"
  "parse_mantissa (InputStream_ctor ''1.0e-123456789101121314151617181920'')
     = (False, 1, \<lparr>remaining = ''e-123456789101121314151617181920'', line = 1, column = 4\<rparr>)"
  by (simp_all add: parse_mantissa_def integer_part.simps fractional_part.simps good_def
      current_def advance_def InputStream_ctor_def isdigit_def digit_val_def)

theorem literals_beyond_range_raise_witness:
  "parse_unsigned_integer UINT_MAX (InputStream_ctor ''123456789101121314151617181920'')
     = Inl OverflowError
   \<and> parse_signed_integer INT_MIN INT_MAX (InputStream_ctor ''123456789101121314151617181920'')
     = Inl OverflowError
   \<and> parse_signed_integer INT_MIN INT_MAX (InputStream_ctor ''-123456789101121314151617181920'')
     = Inl UnderflowError
   \<and> parse_float (InputStream_ctor ''1.0e123456789101121314151617181920'') = Inl OverflowError
   \<and> parse_float (InputStream_ctor ''1.0e-123456789101121314151617181920'') = Inl UnderflowError"
proof -
  have b: "0 \<le> UINT_MAX" "0 \<le> INT_MAX" "INT_MIN \<le> 0"
    by (simp_all add: UINT_MAX_def INT_MAX_def INT_MIN_def)
  have v: "UINT_MAX < int (digits_value (leading_digits ''123456789101121314151617181920''))"
    "INT_MAX < int (digits_value (leading_digits ''123456789101121314151617181920''))"
    "- int (digits_value (leading_digits ''123456789101121314151617181920'')) < INT_MIN"
    by (simp_all add: test_literal_value UINT_MAX_def INT_MAX_def INT_MIN_def)
  note U = literals_beyond_range_raise [OF b(1) b(3), of "''123456789101121314151617181920''"]
  note T = literals_beyond_range_raise [OF b(2) b(3), of "''123456789101121314151617181920''"]
  have u: "parse_unsigned_integer UINT_MAX (InputStream_ctor ''123456789101121314151617181920'')
     = Inl OverflowError"
    using U v(1) by blast
  have s: "parse_signed_integer INT_MIN INT_MAX (InputStream_ctor ''123456789101121314151617181920'')
     = Inl OverflowError"
    using T v(2) by blast
  have n: "parse_signed_integer INT_MIN INT_MAX
             (InputStream_ctor (CHR ''-'' # ''123456789101121314151617181920''))
     = Inl UnderflowError"
    using T v(3) by blast
  have over: "good source \<Longrightarrow> parse_mantissa source = (is_neg, x, s3)
      \<Longrightarrow> remaining s3 = CHR ''e'' # ''123456789101121314151617181920''
      \<Longrightarrow> parse_float source = Inl OverflowError" for source is_neg x s3
    using T v(2) by blast
  have under: "good source \<Longrightarrow> parse_mantissa source = (is_neg, x, s3)
      \<Longrightarrow> remaining s3 = CHR ''e'' # CHR ''-'' # ''123456789101121314151617181920''
      \<Longrightarrow> parse_float source = Inl UnderflowError" for source is_neg x s3
    using T v(3) by blast
  have f1: "parse_float (InputStream_ctor ''1.0e123456789101121314151617181920'')
            = Inl OverflowError"
    by (rule over [OF float_test_mantissa(1,2)]) simp
  have f2: "parse_float (InputStream_ctor ''1.0e-123456789101121314151617181920'')
            = Inl UnderflowError"
    by (rule under [OF float_test_mantissa(3,4)]) simp
  show ?thesis using u s n f1 f2 by simp
qed

lemma float_malformed_mantissa:
  "good (InputStream_ctor ''123.456e-x2'')"
  "parse_mantissa (InputStream_ctor ''123.456e-x2'')
     = (False, 15432 / 125, \<lparr>remaining = ''e-x2'', line = 1, column = 8\<rparr>)"
  by (simp_all add: parse_mantissa_def integer_part.simps fractional_part.simps good_def
      current_def advance_def InputStream_ctor_def isdigit_def digit_val_def)

theorem malformed_exponent_returns_mantissa_witness:
  "parse_float (InputStream_ctor ''123.456e-x2'')
     = Inr (15432 / 125, \<lparr>remaining = ''x2'', line = 1, column = 10\<rparr>)"
  using malformed_exponent_returns_mantissa
          [of "InputStream_ctor ''123.456e-x2''" False "15432 / 125"
              "\<lparr>remaining = ''e-x2'', line = 1, column = 8\<rparr>" "CHR ''e''" "''-''" "''x2''"]
        float_malformed_mantissa
  by (simp add: isdigit_def)

text \<open>
  The claim as the specification words it fails on its own example: of \<^verbatim>\<open>123.456e-x2\<close> nine
  characters are consumed, the exponent marker and the minus sign among them, which is
  what column 10 says; the stream is left at \<^verbatim>\<open>x2\<close>, not at \<^verbatim>\<open>e-x2\<close>.
\<close>

theorem exponent_marker_consumed_counterexample:
  "parse_float (InputStream_ctor ''123.456e-x2'')
     = Inr (15432 / 125, \<lparr>remaining = ''x2'', line = 1, column = 10\<rparr>)
   \<and> remaining (snd (projr (parse_float (InputStream_ctor ''123.456e-x2''))))
     \<noteq> drop (length ''123.456'') ''123.456e-x2''
   \<and> length ''123.456e-x2''
       - length (remaining (snd (projr (parse_float (InputStream_ctor ''123.456e-x2'')))))
     = length ''123.456e-''"
proof -
  have "parse_float (InputStream_ctor ''123.456e-x2'')
     = Inr (15432 / 125, \<lparr>remaining = ''x2'', line = 1, column = 10\<rparr>)"
    using float_malformed_mantissa
    by (simp add: parse_float_def parse_signed_integer_def parse_unsigned_integer_def
        negative_loop.simps good_def current_def advance_def isdigit_def scale10_def)
  then show ?thesis by simp
qed

section \<open>Quoted strings with doubled delimiters\<close>

lemma remaining_advance: "remaining (advance s) = tl (remaining s)"
  by (simp add: advance_def split: list.splits)

lemma remaining_advances: "remaining ((advance ^^ n) s) = drop n (remaining s)"
proof (induction n arbitrary: s)
  case 0
  then show ?case by simp
next
  case (Suc n)
  have "remaining ((advance ^^ Suc n) s) = remaining ((advance ^^ n) (advance s))"
    by (simp add: funpow_swap1)
  then show ?case by (simp add: Suc.IH remaining_advance drop_Suc)
qed

lemma double_delimiters_simps:
  "double_delimiters q [] = []"
  "double_delimiters q (q # c) = q # q # double_delimiters q c"
  "x \<noteq> q \<Longrightarrow> double_delimiters q (x # c) = x # double_delimiters q c"
  by (simp_all add: double_delimiters_def)

lemma string_loop_doubled:
  assumes "remaining source = double_delimiters q c @ q # rest" and "rest = [] \<or> hd rest \<noteq> q"
  shows "string_loop False True q val source
         = Inr (val @ c, (advance ^^ (length (double_delimiters q c) + 1)) source)"
  using assms(1)
proof (induction c arbitrary: val source)
  case Nil
  then have r: "remaining source = q # rest" by (simp add: double_delimiters_simps)
  have "\<not> (good (advance source) \<and> current (advance source) = q)"
    using assms(2) r by (auto simp: good_def current_def remaining_advance)
  then show ?case using r
    by (subst string_loop.simps) (auto simp: good_def current_def double_delimiters_simps)
next
  case (Cons x c)
  show ?case
  proof (cases "x = q")
    case True
    then have r: "remaining source = q # q # double_delimiters q c @ q # rest"
      using Cons.prems by (simp add: double_delimiters_simps)
    then have r2: "remaining (advance (advance source)) = double_delimiters q c @ q # rest"
      by (simp add: remaining_advance)
    have step: "string_loop False True q val source
                = string_loop False True q (val @ [q]) (advance (advance source))"
      using r by (subst string_loop.simps) (simp add: good_def current_def remaining_advance)
    have "(advance ^^ (length (double_delimiters q c) + 1)) (advance (advance source))
          = (advance ^^ (length (double_delimiters q (x # c)) + 1)) source"
      using True by (simp add: double_delimiters_simps funpow_swap1)
    then show ?thesis
      unfolding step using Cons.IH [OF r2, of "val @ [q]"] True by simp
  next
    case False
    then have r: "remaining source = x # double_delimiters q c @ q # rest"
      using Cons.prems by (simp add: double_delimiters_simps)
    then have r2: "remaining (advance source) = double_delimiters q c @ q # rest"
      by (simp add: remaining_advance)
    have step: "string_loop False True q val source
                = string_loop False True q (val @ [x]) (advance source)"
      using r False by (subst string_loop.simps) (simp add: good_def current_def)
    have "(advance ^^ (length (double_delimiters q c) + 1)) (advance source)
          = (advance ^^ (length (double_delimiters q (x # c)) + 1)) source"
      using False by (simp add: double_delimiters_simps funpow_swap1)
    then show ?thesis
      unfolding step using Cons.IH [OF r2, of "val @ [x]"] by simp
  qed
qed

lemma string_loop_unterminated:
  assumes "remaining source = double_delimiters q c"
  shows "string_loop False True q val source = Inl RuntimeError"
  using assms
proof (induction c arbitrary: val source)
  case Nil
  then show ?case
    by (subst string_loop.simps) (simp add: good_def double_delimiters_simps)
next
  case (Cons x c)
  show ?case
  proof (cases "x = q")
    case True
    then have r: "remaining source = q # q # double_delimiters q c"
      using Cons.prems by (simp add: double_delimiters_simps)
    then have r2: "remaining (advance (advance source)) = double_delimiters q c"
      by (simp add: remaining_advance)
    have step: "string_loop False True q val source
                = string_loop False True q (val @ [q]) (advance (advance source))"
      using r by (subst string_loop.simps) (simp add: good_def current_def remaining_advance)
    show ?thesis unfolding step by (rule Cons.IH [OF r2])
  next
    case False
    then have r: "remaining source = x # double_delimiters q c"
      using Cons.prems by (simp add: double_delimiters_simps)
    then have r2: "remaining (advance source) = double_delimiters q c"
      by (simp add: remaining_advance)
    have step: "string_loop False True q val source
                = string_loop False True q (val @ [x]) (advance source)"
      using r False by (subst string_loop.simps) (simp add: good_def current_def)
    show ?thesis unfolding step by (rule Cons.IH [OF r2])
  qed
qed

text \<open>
  Claim C9.  In the doubled-delimiter mode, a quoted string whose content has every
  delimiter character doubled parses to that content with each pair read as one
  delimiter character (between the delimiters, when they are to be included), and the
  stream is left right after the closing delimiter; when the input ends before a closing
  delimiter the parser raises the runtime error the tests expect.  The input of four
  apostrophes yields the single apostrophe at column 5, and \<^verbatim>\<open>bl\<close>, two apostrophes and
  \<^verbatim>\<open>a\<close> between apostrophes yield \<^verbatim>\<open>bl\<close>, one apostrophe and \<^verbatim>\<open>a\<close>.
\<close>

theorem doubled_delimiter_string:
  assumes "rest = [] \<or> hd rest \<noteq> q"
  shows "parse_quoted_string False True include_qmarks
           (InputStream_ctor (q # double_delimiters q c @ q # rest))
         = Inr (if include_qmarks then q # c @ [q] else c,
                (advance ^^ (length (double_delimiters q c) + 2))
                  (InputStream_ctor (q # double_delimiters q c @ q # rest)))
       \<and> remaining ((advance ^^ (length (double_delimiters q c) + 2))
                     (InputStream_ctor (q # double_delimiters q c @ q # rest))) = rest
       \<and> parse_quoted_string False True include_qmarks
           (InputStream_ctor (q # double_delimiters q c)) = Inl RuntimeError
       \<and> double_delimiters q [q] = [q, q]"
proof -
  let ?s = "InputStream_ctor (q # double_delimiters q c @ q # rest)"
  have g: "good ?s" "current ?s = q" by (simp_all add: good_def current_def InputStream_ctor_def)
  have r: "remaining (advance ?s) = double_delimiters q c @ q # rest"
    by (simp add: remaining_advance InputStream_ctor_def)
  have loop: "string_loop False True q val (advance ?s)
         = Inr (val @ c, (advance ^^ (length (double_delimiters q c) + 2)) ?s)" for val
    using string_loop_doubled [OF r assms, of val] by (simp add: funpow_swap1)
  have 1: "parse_quoted_string False True include_qmarks ?s
         = Inr (if include_qmarks then q # c @ [q] else c,
                (advance ^^ (length (double_delimiters q c) + 2)) ?s)"
    using g by (simp add: parse_quoted_string_def loop)
  have 2: "remaining ((advance ^^ (length (double_delimiters q c) + 2)) ?s) = rest"
    by (simp only: remaining_advances) (simp add: InputStream_ctor_def)
  let ?u = "InputStream_ctor (q # double_delimiters q c)"
  have gu: "good ?u" "current ?u = q" by (simp_all add: good_def current_def InputStream_ctor_def)
  have ru: "remaining (advance ?u) = double_delimiters q c"
    by (simp add: remaining_advance InputStream_ctor_def)
  have 3: "parse_quoted_string False True include_qmarks ?u = Inl RuntimeError"
    using gu by (simp add: parse_quoted_string_def string_loop_unterminated [OF ru])
  have 4: "double_delimiters q [q] = [q, q]" by (simp add: double_delimiters_def)
  show ?thesis using 1 2 3 4 by (intro conjI)
qed

theorem doubled_delimiter_string_witness:
  "parse_quoted_string False True False
       (InputStream_ctor [CHR 0x27, CHR 0x27, CHR 0x27, CHR 0x27])
     = Inr ([CHR 0x27], \<lparr>remaining = [], line = 1, column = 5\<rparr>)
   \<and> parse_quoted_string False True False
       (InputStream_ctor ([CHR 0x27] @ ''bl'' @ [CHR 0x27, CHR 0x27] @ ''a'' @ [CHR 0x27]))
     = Inr (''bl'' @ [CHR 0x27] @ ''a'', \<lparr>remaining = [], line = 1, column = 8\<rparr>)
   \<and> parse_quoted_string False True True
       (InputStream_ctor ([CHR 0x27] @ ''xy'' @ [CHR 0x27, CHR 0x27] @ ''z''))
     = Inl RuntimeError"
  using doubled_delimiter_string [of "[]" "CHR 0x27" False "[CHR 0x27]"]
        doubled_delimiter_string [of "[]" "CHR 0x27" False "''bl'' @ [CHR 0x27] @ ''a''"]
        doubled_delimiter_string [of "[]" "CHR 0x27" True "''xy'' @ [CHR 0x27] @ ''z''"]
  by (simp add: double_delimiters_def InputStream_ctor_def advance_def eval_nat_numeral)

section \<open>The Euler tour runs through every link once\<close>

lemma successively_change:
  assumes "successively (\<lambda>x y. f x = y) xs" and "\<forall>x \<in> set (butlast xs). g x = f x"
  shows "successively (\<lambda>x y. g x = y) xs"
  using assms
proof (induction xs rule: induct_list012)
  case 1
  then show ?case by simp
next
  case (2 x)
  then show ?case by simp
next
  case (3 x y zs)
  then show ?case by simp
qed

lemma tour_cycle_rotate:
  assumes "tour_cycle tree (xs @ ys)" and "xs \<noteq> []" and "ys \<noteq> []"
  shows "tour_cycle tree (ys @ xs)"
proof -
  have s: "successively (\<lambda>x y. euler_step tree x = y) xs"
    "successively (\<lambda>x y. euler_step tree x = y) ys"
    "euler_step tree (last xs) = hd ys"
    using assms by (simp_all add: tour_cycle_def successively_append_iff)
  have c: "euler_step tree (last ys) = hd xs"
    using assms by (simp add: tour_cycle_def)
  have "successively (\<lambda>x y. euler_step tree x = y) (ys @ xs)"
    using s c assms(2,3) by (simp add: successively_append_iff)
  moreover have "euler_step tree (last (ys @ xs)) = hd (ys @ xs)"
    using s assms(2,3) by simp
  moreover have "distinct (ys @ xs)" "set (ys @ xs) = set (links tree)"
    using assms(1) by (auto simp: tour_cycle_def)
  ultimately show ?thesis using assms(3) by (simp add: tour_cycle_def)
qed

lemma tour_cycle_ending_in:
  assumes "tour_cycle tree cyc" and "l \<in> set (links tree)"
  shows "\<exists>cyc'. tour_cycle tree cyc' \<and> last cyc' = l \<and> mset cyc' = mset cyc"
proof -
  have "l \<in> set cyc" using assms by (simp add: tour_cycle_def)
  then obtain xs ys where sp: "cyc = xs @ l # ys" by (meson split_list)
  show ?thesis
  proof (cases "ys = []")
    case True
    then show ?thesis using assms(1) sp by (intro exI [of _ cyc]) simp
  next
    case False
    have r: "tour_cycle tree ((xs @ [l]) @ ys)" using assms(1) sp by simp
    have "tour_cycle tree (ys @ (xs @ [l]))"
      by (rule tour_cycle_rotate [OF r _ False]) simp
    then show ?thesis using sp by (intro exI [of _ "ys @ xs @ [l]"]) simp
  qed
qed

lemma tour_cycle_starting_at:
  assumes "tour_cycle tree cyc" and "l \<in> set (links tree)"
  shows "\<exists>cyc'. tour_cycle tree cyc' \<and> hd cyc' = l \<and> mset cyc' = mset cyc"
proof -
  have "l \<in> set cyc" using assms by (simp add: tour_cycle_def)
  then obtain xs ys where sp: "cyc = xs @ l # ys" by (meson split_list)
  show ?thesis
  proof (cases "xs = []")
    case True
    then show ?thesis using assms(1) sp by (intro exI [of _ cyc]) simp
  next
    case False
    have r: "tour_cycle tree (xs @ (l # ys))" using assms(1) sp by simp
    have "tour_cycle tree ((l # ys) @ xs)"
      by (rule tour_cycle_rotate [OF r False]) simp
    then show ?thesis using sp by (intro exI [of _ "(l # ys) @ xs"]) simp
  qed
qed

lemma single_edge_invariants:
  assumes "a \<noteq> b"
  shows "tour_cycle (single_edge a b) [a, b]" and "outer_closed (single_edge a b)"
    and "distinct (links (single_edge a b))"
    and "length (links (single_edge a b)) = 2 * length (edges (single_edge a b))"
proof -
  have st: "euler_step (single_edge a b) a = b" "euler_step (single_edge a b) b = a"
    using assms by (simp_all add: euler_step_def single_edge_def)
  have l: "links (single_edge a b) = [a, b]" "edges (single_edge a b) = [(a, b)]"
    by (simp_all add: single_edge_def)
  show "tour_cycle (single_edge a b) [a, b]"
    using assms st by (simp add: tour_cycle_def l)
  have o: "link_outer (single_edge a b) a = b" "link_outer (single_edge a b) b = a"
    using assms by (simp_all add: single_edge_def)
  show "outer_closed (single_edge a b)"
    by (simp add: outer_closed_def l o)
  show "distinct (links (single_edge a b))" using assms by (simp add: l)
  show "length (links (single_edge a b)) = 2 * length (edges (single_edge a b))"
    by (simp add: l)
qed

lemma attach_leaf_outer_closed:
  assumes "outer_closed tree" "u \<notin> set (links tree)" "v \<notin> set (links tree)"
  shows "outer_closed (attach_leaf tree p u v)"
  unfolding outer_closed_def
proof
  fix l assume "l \<in> set (links (attach_leaf tree p u v))"
  then consider "l \<in> set (links tree)" | "l = u" | "l = v"
    by (auto simp: attach_leaf_def)
  then show "link_outer (attach_leaf tree p u v) l \<in> set (links (attach_leaf tree p u v))
             \<and> link_outer (attach_leaf tree p u v) (link_outer (attach_leaf tree p u v) l) = l"
  proof cases
    case 1
    then have o: "link_outer tree l \<in> set (links tree)" "link_outer tree (link_outer tree l) = l"
      using assms(1) by (simp_all add: outer_closed_def)
    have ne: "l \<noteq> u" "l \<noteq> v" "link_outer tree l \<noteq> u" "link_outer tree l \<noteq> v"
      using 1 o(1) assms(2,3) by auto
    show ?thesis using o ne by (simp add: attach_leaf_def)
  next
    case 2
    then show ?thesis by (simp add: attach_leaf_def)
  next
    case 3
    then show ?thesis by (simp add: attach_leaf_def)
  qed
qed

lemma attach_leaf_step_old:
  assumes "outer_closed tree" "x \<in> set (links tree)" "x \<noteq> link_outer tree p"
    "p \<in> set (links tree)" "u \<notin> set (links tree)" "v \<notin> set (links tree)"
  shows "euler_step (attach_leaf tree p u v) x = euler_step tree x"
proof -
  have o: "link_outer tree x \<in> set (links tree)" "link_outer tree (link_outer tree x) = x"
    using assms(1,2) by (simp_all add: outer_closed_def)
  have "link_outer tree x \<noteq> p" using o(2) assms(3) by auto
  moreover have "link_outer tree x \<noteq> u" "link_outer tree x \<noteq> v" "x \<noteq> u" "x \<noteq> v"
    using o(1) assms(2,5,6) by auto
  ultimately show ?thesis by (simp add: euler_step_def attach_leaf_def)
qed

lemma attach_leaf_step_new:
  assumes "outer_closed tree" "p \<in> set (links tree)" "u \<notin> set (links tree)"
    "v \<notin> set (links tree)" "u \<noteq> v"
  shows "euler_step (attach_leaf tree p u v) (link_outer tree p) = u"
    and "euler_step (attach_leaf tree p u v) u = v"
    and "euler_step (attach_leaf tree p u v) v = euler_step tree (link_outer tree p)"
proof -
  have o: "link_outer tree p \<in> set (links tree)" "link_outer tree (link_outer tree p) = p"
    using assms(1,2) by (simp_all add: outer_closed_def)
  then have ne: "link_outer tree p \<noteq> u" "link_outer tree p \<noteq> v" "p \<noteq> u" "p \<noteq> v"
    using assms(2,3,4) by auto
  show "euler_step (attach_leaf tree p u v) (link_outer tree p) = u"
    using ne o assms(5) by (simp add: euler_step_def attach_leaf_def)
  show "euler_step (attach_leaf tree p u v) u = v"
    using ne assms(5) by (simp add: euler_step_def attach_leaf_def)
  show "euler_step (attach_leaf tree p u v) v = euler_step tree (link_outer tree p)"
    using ne o assms(5) by (simp add: euler_step_def attach_leaf_def)
qed

lemma attach_leaf_tour_cycle:
  assumes "tour_cycle tree cyc" "outer_closed tree" "p \<in> set (links tree)"
    "u \<notin> set (links tree)" "v \<notin> set (links tree)" "u \<noteq> v"
  shows "\<exists>cyc'. tour_cycle (attach_leaf tree p u v) cyc'"
proof -
  let ?t = "attach_leaf tree p u v"
  let ?o = "link_outer tree p"
  have "?o \<in> set (links tree)" using assms(2,3) by (simp add: outer_closed_def)
  then obtain c where c: "tour_cycle tree c" "last c = ?o"
    using tour_cycle_ending_in [OF assms(1)] by blast
  have cne: "c \<noteq> []" and cd: "distinct c" and cs: "set c = set (links tree)"
    and csucc: "successively (\<lambda>x y. euler_step tree x = y) c"
    and cclose: "euler_step tree (last c) = hd c"
    using c(1) by (simp_all add: tour_cycle_def)
  have old: "\<forall>x \<in> set (butlast c). euler_step ?t x = euler_step tree x"
  proof
    fix x assume x: "x \<in> set (butlast c)"
    then have "x \<in> set c" by (rule in_set_butlastD)
    moreover have "x \<noteq> last c"
      using x cd cne by (metis append_butlast_last_id distinct_append disjoint_iff list.set_intros(1))
    ultimately show "euler_step ?t x = euler_step tree x"
      using attach_leaf_step_old [OF assms(2) _ _ assms(3,4,5)] cs c(2) by simp
  qed
  have s1: "successively (\<lambda>x y. euler_step ?t x = y) c"
    using successively_change [OF csucc old] .
  note new = attach_leaf_step_new [OF assms(2-6)]
  have s2: "successively (\<lambda>x y. euler_step ?t x = y) (c @ [u, v])"
    using s1 cne new c(2) by (simp add: successively_append_iff)
  have close: "euler_step ?t (last (c @ [u, v])) = hd (c @ [u, v])"
    using new(3) cclose c(2) cne by simp
  have d: "distinct (c @ [u, v])" using cd cs assms(4,5,6) by auto
  have st: "set (c @ [u, v]) = set (links ?t)" using cs by (auto simp: attach_leaf_def)
  show ?thesis
    using s2 close d st by (intro exI [of _ "c @ [u, v]"]) (simp add: tour_cycle_def)
qed

lemma tree_topology_invariants:
  assumes "tree_topology tree"
  shows "(\<exists>cyc. tour_cycle tree cyc) \<and> outer_closed tree \<and> distinct (links tree)
         \<and> length (links tree) = 2 * length (edges tree)"
  using assms
proof (induction rule: tree_topology.induct)
  case (single a b)
  have "\<exists>cyc. tour_cycle (single_edge a b) cyc"
    using single_edge_invariants(1) [OF single] by (rule exI)
  then show ?case using single_edge_invariants(2-4) [OF single] by simp
next
  case (attach tree p u v)
  from attach.IH obtain cyc where cyc: "tour_cycle tree cyc" by (elim conjE exE)
  from attach.IH have oc: "outer_closed tree" and d: "distinct (links tree)"
    and len: "length (links tree) = 2 * length (edges tree)" by simp_all
  have 1: "\<exists>cyc'. tour_cycle (attach_leaf tree p u v) cyc'"
    using cyc oc attach.hyps(2-5) by (rule attach_leaf_tour_cycle)
  have 2: "outer_closed (attach_leaf tree p u v)"
    using oc attach.hyps(3,4) by (rule attach_leaf_outer_closed)
  have 3: "distinct (links (attach_leaf tree p u v))"
    using d attach.hyps(3-5) by (simp add: attach_leaf_def)
  have 4: "length (links (attach_leaf tree p u v)) = 2 * length (edges (attach_leaf tree p u v))"
    using len by (simp add: attach_leaf_def)
  show ?case using 1 2 3 4 by (intro conjI)
qed

lemma increment_step:
  "increment tree \<lparr>link_m = Some l, start_m = s\<rparr>
   = Some \<lparr>link_m = (if euler_step tree l = s then None else Some (euler_step tree l)),
           start_m = s\<rparr>"
  by (simp add: increment_def euler_step_def Let_def)

lemma tour_end: "tour tree \<lparr>link_m = None, start_m = s\<rparr> = Some []"
  by (subst tour.simps) simp

lemma tour_step:
  "tour tree \<lparr>link_m = Some l, start_m = s\<rparr>
   = Option.bind (tour tree \<lparr>link_m = (if euler_step tree l = s then None
                                          else Some (euler_step tree l)), start_m = s\<rparr>)
       (\<lambda>rest. Some (l # rest))"
  by (subst tour.simps) (simp add: increment_step)

lemma tour_suffix:
  assumes "distinct (xs @ ys)"
    and "successively (\<lambda>x y. euler_step tree x = y) (xs @ ys)"
    and "euler_step tree (last (xs @ ys)) = hd (xs @ ys)"
    and "ys \<noteq> []"
  shows "tour tree \<lparr>link_m = Some (hd ys), start_m = hd (xs @ ys)\<rparr> = Some ys"
  using assms
proof (induction ys arbitrary: xs rule: induct_list012)
  case 1
  then show ?case by simp
next
  case (2 y)
  then have "euler_step tree y = hd (xs @ [y])" by simp
  then show ?case by (simp add: tour_step tour_end)
next
  case (3 y y' ys)
  have st: "euler_step tree y = y'"
    using "3.prems"(2) by (simp add: successively_append_iff)
  have ne: "y' \<noteq> hd (xs @ y # y' # ys)"
    using "3.prems"(1) by (cases xs) auto
  have same: "(xs @ [y]) @ y' # ys = xs @ y # y' # ys" by simp
  have ih: "tour tree \<lparr>link_m = Some (hd (y' # ys)), start_m = hd ((xs @ [y]) @ y' # ys)\<rparr>
            = Some (y' # ys)"
    by (rule "3.IH"(2)) (use "3.prems" in \<open>simp_all only: same\<close>, simp)
  then have "tour tree \<lparr>link_m = Some y', start_m = hd (xs @ y # y' # ys)\<rparr> = Some (y' # ys)"
    by (simp only: same list.sel)
  then show ?case using st ne by (simp add: tour_step)
qed

lemma tour_of_cycle:
  assumes "tour_cycle tree cyc"
  shows "tour tree (TreeIteratorEulertour_ctor (hd cyc)) = Some cyc"
  using tour_suffix [of "[]" cyc tree] assms
  by (simp add: tour_cycle_def TreeIteratorEulertour_ctor_def)

lemma successively_not_back:
  assumes "distinct xs" and "successively (\<lambda>x y. f x = y) xs"
  shows "successively (\<lambda>x y. f x = y \<and> y \<noteq> hd xs) xs"
  unfolding successively_conv_nth
proof (intro allI impI)
  fix i assume i: "Suc i < length xs"
  then have "xs \<noteq> []" by auto
  then have hd: "hd xs = xs ! 0" by (simp add: hd_conv_nth)
  have "xs ! Suc i \<noteq> xs ! 0"
    using nth_eq_iff_index_eq [OF assms(1), of "Suc i" 0] i \<open>xs \<noteq> []\<close> by simp
  moreover have "f (xs ! i) = xs ! Suc i"
    using assms(2) i by (simp add: successively_conv_nth)
  ultimately show "f (xs ! i) = xs ! Suc i \<and> xs ! Suc i \<noteq> hd xs" using hd by simp
qed

text \<open>
  Claim C6.  On every tree and from every start link of it, the loop over the iterator
  ends, and the links it has visited are all links of the tree, each once, which is
  twice the number of edges; every step goes from a link to the next link of its outer
  link, no step before the last one comes back to the start link, and the step from the
  last visited link does, which is when \<open>increment\<close> sets the iterator to its end.  A
  tour from any other start link visits the same links as a multiset.  The iterator only
  reads the tree: \<open>increment\<close> returns an iterator and nothing else.
\<close>

theorem euler_tour_visits_every_link_once:
  assumes "tree_topology tree" and "start \<in> set (links tree)"
  shows "\<exists>visited.
           tour tree (TreeIteratorEulertour_ctor start) = Some visited
         \<and> length visited = 2 * length (edges tree)
         \<and> distinct visited
         \<and> set visited = set (links tree)
         \<and> hd visited = start
         \<and> successively (\<lambda>l l'. link_next tree (link_outer tree l) = l' \<and> l' \<noteq> start) visited
         \<and> link_next tree (link_outer tree (last visited)) = start
         \<and> (\<forall>start' \<in> set (links tree). \<exists>visited'.
               tour tree (TreeIteratorEulertour_ctor start') = Some visited'
               \<and> mset visited' = mset visited)
         \<and> (\<forall>it l. link_m it = Some l \<longrightarrow>
               increment tree it
               = Some (it\<lparr>link_m := (if link_next tree (link_outer tree l) = start_m it then None
                                       else Some (link_next tree (link_outer tree l)))\<rparr>))"
proof -
  from tree_topology_invariants [OF assms(1)]
  obtain cyc0 where cyc0: "tour_cycle tree cyc0" and d: "distinct (links tree)"
    and len: "length (links tree) = 2 * length (edges tree)"
    by (elim conjE exE)
  from tour_cycle_starting_at [OF cyc0 assms(2)]
  obtain cyc where cyc: "tour_cycle tree cyc" "hd cyc = start" "mset cyc = mset cyc0"
    by (elim conjE exE)
  have t: "tour tree (TreeIteratorEulertour_ctor start) = Some cyc"
    using tour_of_cycle [OF cyc(1)] cyc(2) by simp
  have cd: "distinct cyc" and cs: "set cyc = set (links tree)"
    and csucc: "successively (\<lambda>x y. euler_step tree x = y) cyc"
    and cclose: "euler_step tree (last cyc) = hd cyc"
    using cyc(1) by (simp_all add: tour_cycle_def)
  have l: "length cyc = 2 * length (edges tree)"
    using cd cs d len by (metis distinct_card)
  have s: "successively (\<lambda>l l'. link_next tree (link_outer tree l) = l' \<and> l' \<noteq> start) cyc"
    using successively_not_back [OF cd csucc] cyc(2) by (simp add: euler_step_def)
  have c: "link_next tree (link_outer tree (last cyc)) = start"
    using cclose cyc(2) by (simp add: euler_step_def)
  have others: "\<forall>start' \<in> set (links tree). \<exists>visited'.
               tour tree (TreeIteratorEulertour_ctor start') = Some visited'
               \<and> mset visited' = mset cyc"
  proof
    fix start' assume "start' \<in> set (links tree)"
    from tour_cycle_starting_at [OF cyc0 this]
    obtain cyc' where cyc': "tour_cycle tree cyc'" "hd cyc' = start'" "mset cyc' = mset cyc0"
      by (elim conjE exE)
    have "tour tree (TreeIteratorEulertour_ctor start') = Some cyc'"
      using tour_of_cycle [OF cyc'(1)] cyc'(2) by simp
    then show "\<exists>visited'. tour tree (TreeIteratorEulertour_ctor start') = Some visited'
               \<and> mset visited' = mset cyc"
      using cyc'(3) cyc(3) by simp
  qed
  have inc: "\<forall>it l. link_m it = Some l \<longrightarrow>
               increment tree it
               = Some (it\<lparr>link_m := (if link_next tree (link_outer tree l) = start_m it then None
                                       else Some (link_next tree (link_outer tree l)))\<rparr>)"
    by (simp add: increment_def Let_def)
  show ?thesis
    using t l cd cs cyc(2) s c others inc by (intro exI [of _ cyc] conjI)
qed

theorem euler_tour_visits_every_link_once_witness:
  "tree_topology example_tree
   \<and> tour example_tree (TreeIteratorEulertour_ctor 3) = Some [3, 0, 4, 5, 1, 2]
   \<and> tour example_tree (TreeIteratorEulertour_ctor 0) = Some [0, 4, 5, 1, 2, 3]
   \<and> length [3, 0, 4, 5, 1, 2 :: nat] = 2 * length (edges example_tree)
   \<and> mset [0, 4, 5, 1, 2, 3 :: nat] = mset [3, 0, 4, 5, 1, 2]"
proof -
  have tt: "tree_topology example_tree"
    unfolding example_tree_def
    by (intro tree_topology.intros) (simp_all add: attach_leaf_def single_edge_def)
  have l: "links example_tree = [0, 1, 2, 3, 4, 5]"
    by (simp add: example_tree_def attach_leaf_def single_edge_def)
  have t3: "tour example_tree (TreeIteratorEulertour_ctor 3) = Some [3, 0, 4, 5, 1, 2]"
    by (simp add: tour_step tour_end euler_step_def example_tree_def attach_leaf_def
        single_edge_def TreeIteratorEulertour_ctor_def)
  have t0: "tour example_tree (TreeIteratorEulertour_ctor 0) = Some [0, 4, 5, 1, 2, 3]"
    by (simp add: tour_step tour_end euler_step_def example_tree_def attach_leaf_def
        single_edge_def TreeIteratorEulertour_ctor_def)
  have "3 \<in> set (links example_tree)" by (simp add: l)
  from euler_tour_visits_every_link_once [OF tt this] t3 t0
  have "length [3, 0, 4, 5, 1, 2 :: nat] = 2 * length (edges example_tree)"
    and "mset [0, 4, 5, 1, 2, 3 :: nat] = mset [3, 0, 4, 5, 1, 2]"
    by (auto simp: l)
  then show ?thesis using tt t3 t0 by simp
qed

end
